theory Spec2Isabelle
  imports Main "HOL-Library.Word"
begin

section \<open>The WebTransport transport of go-libp2p: addresses and the listener\<close>

text \<open>
  The development follows \<^verbatim>\<open>p2p/transport/webtransport/multiaddr.go\<close> and the
  listener (\<^verbatim>\<open>newListener\<close>, \<^verbatim>\<open>Accept\<close>, \<^verbatim>\<open>handshake\<close>, \<^verbatim>\<open>Multiaddr\<close>,
  \<^verbatim>\<open>Close\<close>). Go errors are values of a sum type (\<open>Inl\<close> the error), channels are
  bounded lists, and the goroutines of the listener are the events of a scheduler.
\<close>

type_synonym byte = "8 word"

unbundle bit_operations_syntax

section \<open>The libraries of the addresses\<close>

text \<open>
  \<^verbatim>\<open>multiaddr.go\<close> builds and reads addresses with go-multiaddr (and its packages
  \<^verbatim>\<open>net\<close> and go-multiaddr-fmt), go-multibase and go-multihash (which reads numbers
  with go-varint). This section gives the functions of these libraries that
  \<^verbatim>\<open>multiaddr.go\<close> calls, as their Go code computes them.
\<close>

subsection \<open>Digits\<close>

text \<open>
  A number as the list of its digits in a base, the most significant digit first:
  without leading zero (\<open>to_digits\<close>), or with a given number of digits (\<open>to_fixed\<close>).
  \<open>chunks\<close> cuts a list into pieces of a given length, and \<open>index_of\<close> is the place of
  a character in an alphabet.
\<close>

function to_digits :: "nat \<Rightarrow> nat \<Rightarrow> nat list" where
  "to_digits b n = (if n = 0 \<or> b < 2 then [] else to_digits b (n div b) @ [n mod b])"
  by pat_completeness auto
termination
  by (relation "measure snd") auto
declare to_digits.simps [simp del]

definition from_digits :: "nat \<Rightarrow> nat list \<Rightarrow> nat" where
  "from_digits b ds = foldl (\<lambda>a d. a * b + d) 0 ds"

fun to_fixed :: "nat \<Rightarrow> nat \<Rightarrow> nat \<Rightarrow> nat list" where
  "to_fixed b 0 n = []"
| "to_fixed b (Suc w) n = to_fixed b w (n div b) @ [n mod b]"

function chunks :: "nat \<Rightarrow> 'a list \<Rightarrow> 'a list list" where
  "chunks k xs = (if xs = [] \<or> k = 0 then [] else take k xs # chunks k (drop k xs))"
  by pat_completeness auto
termination
  by (relation "measure (\<lambda>(k, xs). length xs)") auto
declare chunks.simps [simp del]

definition byte_bits :: "byte \<Rightarrow> nat list" where
  "byte_bits b = to_fixed 2 8 (unat b)"

definition bits_byte :: "nat list \<Rightarrow> byte" where
  "bits_byte g = of_nat (from_digits 2 g)"

fun index_of :: "'a list \<Rightarrow> 'a \<Rightarrow> nat option" where
  "index_of [] x = None"
| "index_of (y # ys) x = (if x = y then Some 0 else map_option Suc (index_of ys x))"

subsection \<open>go-multibase\<close>

text \<open>
  \<^verbatim>\<open>Encode\<close> writes the character of the encoding, then the bytes in that encoding;
  \<^verbatim>\<open>Decode\<close> reads the character and decodes the rest. The text of base58 and
  base36 is the number that the bytes are in base 256, written in base 58 or 36, after
  one first character of the alphabet for each leading zero byte. The text of base2,
  base16, base32 and base64 is the bits of the bytes in groups of 1, 4, 5 and 6, the
  last group filled with zero bits, and in the padded encodings filled with \<open>=\<close> to a
  whole block. \<^verbatim>\<open>Encode\<close> and \<^verbatim>\<open>Decode\<close> have no case for Base8 and Base10.
  Base256Emoji, whose character is not one byte, is left out. \<^verbatim>\<open>Decode\<close> is given
  on the texts that \<^verbatim>\<open>Encode\<close> writes: it takes the letters of the alphabet of
  the encoding only.
\<close>

text \<open>
  The errors of go-multibase: an unknown encoding, an empty text, a text that is not
  of the encoding.
\<close>

datatype mb_error = ErrUnsupportedEncoding | ErrEmpty | ErrCorrupt

text \<open>
  Base58 and base36, over an alphabet.
\<close>

definition bignum_encode :: "string \<Rightarrow> byte list \<Rightarrow> string" where
  "bignum_encode alphabet bin =
     (let zcount = length (takeWhile (\<lambda>b. b = 0) bin)
      in replicate zcount (alphabet ! 0) @
         map ((!) alphabet) (to_digits (length alphabet) (from_digits 256 (map unat bin))))"

definition bignum_decode :: "string \<Rightarrow> string \<Rightarrow> mb_error + byte list" where
  "bignum_decode alphabet str =
     (if str = [] then Inl ErrEmpty
      else case those (map (index_of alphabet) str) of
        None \<Rightarrow> Inl ErrCorrupt
      | Some ds \<Rightarrow>
          (let zcount = length (takeWhile (\<lambda>d. d = 0) ds)
           in Inr (replicate zcount 0 @
                map of_nat (to_digits 256 (from_digits (length alphabet) ds)))))"

text \<open>
  Base2, base16, base32 and base64, over an alphabet of \<open>2 ^ k\<close> characters: groups of
  \<open>k\<close> bits. The decoder drops the filling bits, of which there are fewer than \<open>k\<close>.
\<close>

definition bits_encode :: "nat \<Rightarrow> string \<Rightarrow> byte list \<Rightarrow> string" where
  "bits_encode k alphabet bin =
     (let bits = concat (map byte_bits bin);
          pad = replicate ((k - length bits mod k) mod k) 0
      in map (\<lambda>g. alphabet ! from_digits 2 g) (chunks k (bits @ pad)))"

definition bits_decode :: "nat \<Rightarrow> string \<Rightarrow> string \<Rightarrow> mb_error + byte list" where
  "bits_decode k alphabet str =
     (case those (map (index_of alphabet) str) of
        None \<Rightarrow> Inl ErrCorrupt
      | Some ds \<Rightarrow>
          (let bits = concat (map (to_fixed 2 k) ds)
           in if k \<le> length bits mod 8 then Inl ErrCorrupt
              else Inr (map bits_byte (chunks 8 (take (length bits div 8 * 8) bits)))))"

text \<open>
  The padding of the padded encodings: \<open>=\<close> up to a multiple of \<open>blk\<close> characters.
\<close>

definition pad_encode :: "nat \<Rightarrow> string \<Rightarrow> string" where
  "pad_encode blk s = s @ replicate ((blk - length s mod blk) mod blk) (CHR ''='')"

definition pad_decode :: "nat \<Rightarrow> string \<Rightarrow> string option" where
  "pad_decode blk s =
     (let body = takeWhile (\<lambda>c. c \<noteq> CHR ''='') s;
          tail = dropWhile (\<lambda>c. c \<noteq> CHR ''='') s
      in if length s mod blk = 0 \<and> list_all (\<lambda>c. c = CHR ''='') tail \<and> length tail < blk
         then Some body else None)"

text \<open>
  The encodings of go-multibase and their characters.
\<close>

datatype Encoding =
    Identity | Base2 | Base8 | Base10 | Base16 | Base16Upper
  | Base32 | Base32Upper | Base32pad | Base32padUpper
  | Base32hex | Base32hexUpper | Base32hexPad | Base32hexPadUpper
  | Base36 | Base36Upper | Base58BTC | Base58Flickr
  | Base64 | Base64url | Base64pad | Base64urlPad

fun Encoding_char :: "Encoding \<Rightarrow> char" where
  "Encoding_char Identity = CHR 0x00"
| "Encoding_char Base2 = CHR ''0''"
| "Encoding_char Base8 = CHR ''7''"
| "Encoding_char Base10 = CHR ''9''"
| "Encoding_char Base16 = CHR ''f''"
| "Encoding_char Base16Upper = CHR ''F''"
| "Encoding_char Base32 = CHR ''b''"
| "Encoding_char Base32Upper = CHR ''B''"
| "Encoding_char Base32pad = CHR ''c''"
| "Encoding_char Base32padUpper = CHR ''C''"
| "Encoding_char Base32hex = CHR ''v''"
| "Encoding_char Base32hexUpper = CHR ''V''"
| "Encoding_char Base32hexPad = CHR ''t''"
| "Encoding_char Base32hexPadUpper = CHR ''T''"
| "Encoding_char Base36 = CHR ''k''"
| "Encoding_char Base36Upper = CHR ''K''"
| "Encoding_char Base58BTC = CHR ''z''"
| "Encoding_char Base58Flickr = CHR ''Z''"
| "Encoding_char Base64 = CHR ''m''"
| "Encoding_char Base64url = CHR ''u''"
| "Encoding_char Base64pad = CHR ''M''"
| "Encoding_char Base64urlPad = CHR ''U''"

definition encodings :: "Encoding list" where
  "encodings = [Identity, Base2, Base8, Base10, Base16, Base16Upper, Base32, Base32Upper,
     Base32pad, Base32padUpper, Base32hex, Base32hexUpper, Base32hexPad, Base32hexPadUpper,
     Base36, Base36Upper, Base58BTC, Base58Flickr, Base64, Base64url, Base64pad,
     Base64urlPad]"

definition alphabet2 :: string where "alphabet2 = ''01''"

definition alphabet16 :: string where "alphabet16 = ''0123456789abcdef''"

definition alphabet16upper :: string where "alphabet16upper = ''0123456789ABCDEF''"

definition alphabet32 :: string where "alphabet32 = ''abcdefghijklmnopqrstuvwxyz234567''"

definition alphabet32upper :: string where
  "alphabet32upper = ''ABCDEFGHIJKLMNOPQRSTUVWXYZ234567''"

definition alphabet32hex :: string where "alphabet32hex = ''0123456789abcdefghijklmnopqrstuv''"

definition alphabet32hexupper :: string where
  "alphabet32hexupper = ''0123456789ABCDEFGHIJKLMNOPQRSTUV''"

definition alphabet36 :: string where
  "alphabet36 = ''0123456789abcdefghijklmnopqrstuvwxyz''"

definition alphabet36upper :: string where
  "alphabet36upper = ''0123456789ABCDEFGHIJKLMNOPQRSTUVWXYZ''"

definition alphabet58btc :: string where
  "alphabet58btc = ''123456789ABCDEFGHJKLMNPQRSTUVWXYZabcdefghijkmnopqrstuvwxyz''"

definition alphabet58flickr :: string where
  "alphabet58flickr = ''123456789abcdefghijkmnopqrstuvwxyzABCDEFGHJKLMNPQRSTUVWXYZ''"

definition alphabet64 :: string where
  "alphabet64 = ''ABCDEFGHIJKLMNOPQRSTUVWXYZabcdefghijklmnopqrstuvwxyz0123456789+/''"

definition alphabet64url :: string where
  "alphabet64url = ''ABCDEFGHIJKLMNOPQRSTUVWXYZabcdefghijklmnopqrstuvwxyz0123456789-_''"

text \<open>
  How each encoding writes bytes: as they are, in groups of bits without or with
  padding, or as a number; \<^verbatim>\<open>Encode\<close> and \<^verbatim>\<open>Decode\<close> have no case for the
  others.
\<close>

datatype codec =
    Raw
  | Bits nat string
  | BitsPad nat nat string
  | Bignum string
  | Unsupported

fun codec_of :: "Encoding \<Rightarrow> codec" where
  "codec_of Identity = Raw"
| "codec_of Base2 = Bits 1 alphabet2"
| "codec_of Base8 = Unsupported"
| "codec_of Base10 = Unsupported"
| "codec_of Base16 = Bits 4 alphabet16"
| "codec_of Base16Upper = Bits 4 alphabet16upper"
| "codec_of Base32 = Bits 5 alphabet32"
| "codec_of Base32Upper = Bits 5 alphabet32upper"
| "codec_of Base32pad = BitsPad 5 8 alphabet32"
| "codec_of Base32padUpper = BitsPad 5 8 alphabet32upper"
| "codec_of Base32hex = Bits 5 alphabet32hex"
| "codec_of Base32hexUpper = Bits 5 alphabet32hexupper"
| "codec_of Base32hexPad = BitsPad 5 8 alphabet32hex"
| "codec_of Base32hexPadUpper = BitsPad 5 8 alphabet32hexupper"
| "codec_of Base36 = Bignum alphabet36"
| "codec_of Base36Upper = Bignum alphabet36upper"
| "codec_of Base58BTC = Bignum alphabet58btc"
| "codec_of Base58Flickr = Bignum alphabet58flickr"
| "codec_of Base64 = Bits 6 alphabet64"
| "codec_of Base64url = Bits 6 alphabet64url"
| "codec_of Base64pad = BitsPad 6 4 alphabet64"
| "codec_of Base64urlPad = BitsPad 6 4 alphabet64url"

text \<open>
  A Go string is a sequence of bytes: \<^verbatim>\<open>string(b)\<close> and \<^verbatim>\<open>[]byte(s)\<close>.
\<close>

definition byte_char :: "byte \<Rightarrow> char" where
  "byte_char b = char_of (unat b)"

definition char_byte :: "char \<Rightarrow> byte" where
  "char_byte c = of_nat (of_char c)"

fun codec_encode :: "codec \<Rightarrow> byte list \<Rightarrow> string option" where
  "codec_encode Raw data = Some (map byte_char data)"
| "codec_encode (Bits k a) data = Some (bits_encode k a data)"
| "codec_encode (BitsPad k blk a) data = Some (pad_encode blk (bits_encode k a data))"
| "codec_encode (Bignum a) data = Some (bignum_encode a data)"
| "codec_encode Unsupported data = None"

fun codec_decode :: "codec \<Rightarrow> string \<Rightarrow> mb_error + byte list" where
  "codec_decode Raw s = Inr (map char_byte s)"
| "codec_decode (Bits k a) s = bits_decode k a s"
| "codec_decode (BitsPad k blk a) s =
     (case pad_decode blk s of None \<Rightarrow> Inl ErrCorrupt | Some body \<Rightarrow> bits_decode k a body)"
| "codec_decode (Bignum a) s = bignum_decode a s"
| "codec_decode Unsupported s = Inl ErrUnsupportedEncoding"

definition multibase_Encode :: "Encoding \<Rightarrow> byte list \<Rightarrow> mb_error + string" where
  "multibase_Encode base data =
     (case codec_encode (codec_of base) data of
        None \<Rightarrow> Inl ErrUnsupportedEncoding
      | Some s \<Rightarrow> Inr (Encoding_char base # s))"

definition multibase_Decode :: "string \<Rightarrow> mb_error + Encoding \<times> byte list" where
  "multibase_Decode data =
     (case data of
        [] \<Rightarrow> Inl ErrEmpty
      | r # rest \<Rightarrow>
          (case find (\<lambda>enc. Encoding_char enc = r) encodings of
             None \<Rightarrow> Inl ErrUnsupportedEncoding
           | Some enc \<Rightarrow>
               (case codec_decode (codec_of enc) rest of
                  Inl err \<Rightarrow> Inl err
                | Inr bytes \<Rightarrow> Inr (enc, bytes))))"

subsection \<open>go-varint\<close>

text \<open>
  \<^verbatim>\<open>PutUvarint\<close> writes a number seven bits at a time, the least significant bits
  first, with the high bit of a byte set when another byte follows.
  \<^verbatim>\<open>FromUvarint\<close> reads at most nine bytes and refuses a number that ends with a
  zero byte; it returns the number and how many bytes it has read.
\<close>

text \<open>
  The errors of go-varint.
\<close>

datatype varint_error = ErrOverflow | ErrUnderflow | ErrNotMinimal

function PutUvarint :: "nat \<Rightarrow> byte list" where
  "PutUvarint x =
     (if 0x80 \<le> x then ((of_nat x :: byte) OR 0x80) # PutUvarint (drop_bit 7 x)
      else [of_nat x])"
  by pat_completeness auto
termination
  by (relation "measure id") (auto simp: drop_bit_eq_div)
declare PutUvarint.simps [simp del]

fun FromUvarint_loop ::
  "nat \<Rightarrow> nat \<Rightarrow> nat \<Rightarrow> byte list \<Rightarrow> varint_error + nat \<times> nat" where
  "FromUvarint_loop i s x [] = Inl ErrUnderflow"
| "FromUvarint_loop i s x (b # buf) =
     (if (i = 8 \<and> 0x80 \<le> b) \<or> 9 \<le> i then Inl ErrOverflow
      else if b < 0x80 then
        (if b = 0 \<and> 0 < s then Inl ErrNotMinimal
         else Inr (x OR push_bit s (unat b), i + 1))
      else FromUvarint_loop (i + 1) (s + 7) (x OR push_bit s (unat (b AND 0x7f))) buf)"

definition FromUvarint :: "byte list \<Rightarrow> varint_error + nat \<times> nat" where
  "FromUvarint buf = FromUvarint_loop 0 0 0 buf"

subsection \<open>go-multihash\<close>

text \<open>
  A multihash is the code of the hash function, the length of the digest, both as
  varints, and the digest.
\<close>

text \<open>
  The errors of \<^verbatim>\<open>multihash.Decode\<close>: a buffer of fewer than two bytes, an error
  of a varint, a length above \<open>2 ^ 31 - 1\<close>, a length beyond the end of the buffer,
  bytes after the digest.
\<close>

datatype mh_error =
    ErrTooShort
  | ErrVarint varint_error
  | ErrDigestTooLong
  | ErrLengthExceedsBuffer
  | ErrInconsistentLen

text \<open>
  \<^verbatim>\<open>multihash.DecodedMultihash\<close>
\<close>

record DecodedMultihash =
  Code :: nat
  Name :: string
  Length :: nat
  Digest :: "byte list"

definition SHA2_256 :: nat where
  "SHA2_256 = 0x12"

text \<open>
  \<^verbatim>\<open>multihash.Encode\<close>; its error is always nil.
\<close>

definition multihash_Encode :: "byte list \<Rightarrow> nat \<Rightarrow> mh_error + byte list" where
  "multihash_Encode buf code = Inr (PutUvarint code @ PutUvarint (length buf) @ buf)"

text \<open>
  \<^verbatim>\<open>uvarint\<close> of go-multihash reads one varint and returns the rest of the buffer.
\<close>

definition uvarint :: "byte list \<Rightarrow> mh_error + nat \<times> byte list" where
  "uvarint buf =
     (case FromUvarint buf of
        Inl err \<Rightarrow> Inl (ErrVarint err)
      | Inr (n, c) \<Rightarrow> if c = 0 then Inl ErrTooShort else Inr (n, drop c buf))"

definition readMultihashFromBuf :: "byte list \<Rightarrow> mh_error + nat \<times> nat \<times> byte list" where
  "readMultihashFromBuf buf =
     (if length buf < 2 then Inl ErrTooShort
      else case uvarint buf of
        Inl err \<Rightarrow> Inl err
      | Inr (code, buf1) \<Rightarrow>
          (case uvarint buf1 of
             Inl err \<Rightarrow> Inl err
           | Inr (len, buf2) \<Rightarrow>
               if 2 ^ 31 - 1 < len then Inl ErrDigestTooLong
               else if length buf2 < len then Inl ErrLengthExceedsBuffer
               else Inr (length buf - length buf2 + len, code, take len buf2)))"

text \<open>
  \<^verbatim>\<open>multihash.Decode\<close> reads the code and the digest, and refuses a buffer that
  goes on after the digest. It looks up the name of the code in \<^verbatim>\<open>Codes\<close>, a table
  that is a variable of the library and a parameter here. \<open>Decode_fields\<close> is \<^verbatim>\<open>Decode\<close>
  without the name, for the callers that only ask whether the bytes are a multihash.
\<close>

definition Decode_fields :: "byte list \<Rightarrow> mh_error + nat \<times> byte list" where
  "Decode_fields buf =
     (case readMultihashFromBuf buf of
        Inl err \<Rightarrow> Inl err
      | Inr (rlen, code, hdig) \<Rightarrow>
          if length buf \<noteq> rlen then Inl ErrInconsistentLen else Inr (code, hdig))"

definition multihash_Decode ::
  "(nat \<Rightarrow> string) \<Rightarrow> byte list \<Rightarrow> mh_error + DecodedMultihash" where
  "multihash_Decode Codes buf =
     (case Decode_fields buf of
        Inl err \<Rightarrow> Inl err
      | Inr (code, hdig) \<Rightarrow>
          Inr \<lparr>Code = code, Name = Codes code, Length = length hdig, Digest = hdig\<rparr>)"

subsection \<open>go-multiaddr\<close>

text \<open>
  An address is the list of its components; a component is the code of its protocol
  and the bytes of its value.
\<close>

text \<open>
  The codes of the protocols of these addresses.
\<close>

definition P_IP4 :: nat where "P_IP4 = 0x0004"

definition P_TCP :: nat where "P_TCP = 0x0006"

definition P_IP6 :: nat where "P_IP6 = 0x0029"

definition P_IP6ZONE :: nat where "P_IP6ZONE = 0x002A"

definition P_UDP :: nat where "P_UDP = 0x0111"

definition P_UNIX :: nat where "P_UNIX = 0x0190"

definition P_QUIC :: nat where "P_QUIC = 0x01CC"

definition P_WEBTRANSPORT :: nat where "P_WEBTRANSPORT = 0x01D1"

definition P_CERTHASH :: nat where "P_CERTHASH = 0x01D2"

datatype Component = Component (Protocol: nat) (RawValue: "byte list")

type_synonym Multiaddr = "Component list"

text \<open>
  The errors of the functions on addresses: those of go-multibase and go-multihash,
  those of go-multiaddr and of its package \<^verbatim>\<open>net\<close>, \<^verbatim>\<open>errors.New\<close>, and an error
  wrapped by \<^verbatim>\<open>fmt.Errorf\<close> with \<^verbatim>\<open>%w\<close>.
\<close>

datatype addr_error =
    MultibaseError mb_error
  | MultihashError mh_error
  | ErrProtocolNotFound
  | ErrUnsupportedProtocol string
  | ErrNoValue string
  | ErrEmptyZone
  | ErrZoneSlash
  | errIncorrectNetAddr
  | ErrUnknownNetwork string
  | errors_New string
  | fmt_Errorf string addr_error

definition Encapsulate :: "Multiaddr \<Rightarrow> Multiaddr \<Rightarrow> Multiaddr" where
  "Encapsulate m o' = m @ o'"

definition Protocols :: "Multiaddr \<Rightarrow> nat list" where
  "Protocols m = map Protocol m"

text \<open>
  \<^verbatim>\<open>ma.ForEach\<close> walks through the components until the callback returns false.
  What the callback changes is a state that it is given and returns.
\<close>

fun ForEach :: "Multiaddr \<Rightarrow> (Component \<Rightarrow> 's \<Rightarrow> bool \<times> 's) \<Rightarrow> 's \<Rightarrow> 's" where
  "ForEach [] cb s = s"
| "ForEach (c # m) cb s =
     (case cb c s of (continue, s') \<Rightarrow> if continue then ForEach m cb s' else s')"

text \<open>
  The text of the value of a component is written by the transcoder of its protocol.
  Numbers in decimal and hexadecimal, and \<^verbatim>\<open>strings.Join\<close>:
\<close>

definition Itoa :: "nat \<Rightarrow> string" where
  "Itoa n = (if n = 0 then ''0'' else map ((!) ''0123456789'') (to_digits 10 n))"

definition hexdigit :: "nat \<Rightarrow> char" where
  "hexdigit d = ''0123456789abcdef'' ! d"

definition appendHex :: "nat \<Rightarrow> string" where
  "appendHex n = (if n = 0 then ''0'' else map hexdigit (to_digits 16 n))"

definition hexString :: "byte list \<Rightarrow> string" where
  "hexString b = concat (map (\<lambda>x. [hexdigit (unat x div 16), hexdigit (unat x mod 16)]) b)"

definition join :: "string \<Rightarrow> string list \<Rightarrow> string" where
  "join sep xs = (case xs of [] \<Rightarrow> [] | x # r \<Rightarrow> x @ concat (map (\<lambda>y. sep @ y) r))"

text \<open>
  \<^verbatim>\<open>net.IP\<close> is a list of 4 or 16 bytes. \<^verbatim>\<open>To4\<close> gives the 4 bytes of an IPv4
  address, also when it is written in 16 bytes; \<^verbatim>\<open>String\<close> writes an IPv4 address
  with dots and an IPv6 address in groups of 16 bits, \<open>::\<close> for the first of the longest
  runs of at least two zero groups.
\<close>

definition IP_To4 :: "byte list \<Rightarrow> byte list option" where
  "IP_To4 ip =
     (if length ip = 4 then Some ip
      else if length ip = 16 \<and> take 10 ip = replicate 10 0 \<and> ip ! 10 = 0xff \<and> ip ! 11 = 0xff
      then Some (drop 12 ip)
      else None)"

definition IP_To16 :: "byte list \<Rightarrow> byte list option" where
  "IP_To16 ip =
     (if length ip = 4 then Some (replicate 10 0 @ [0xff, 0xff] @ ip)
      else if length ip = 16 then Some ip
      else None)"

definition zero_run :: "nat list \<Rightarrow> (nat \<times> nat) option" where
  "zero_run gs =
     (let runs = map (\<lambda>i. length (takeWhile (\<lambda>g. g = 0) (drop i gs))) [0..<length gs];
          longest = foldr max runs 0
      in if longest < 2 then None
         else case index_of runs longest of None \<Rightarrow> None | Some e0 \<Rightarrow> Some (e0, e0 + longest))"

definition IP_String :: "byte list \<Rightarrow> string" where
  "IP_String ip =
     (if ip = [] then ''<nil>''
      else case IP_To4 ip of
        Some p4 \<Rightarrow> join ''.'' (map (\<lambda>b. Itoa (unat b)) p4)
      | None \<Rightarrow>
          if length ip \<noteq> 16 then ''?'' @ hexString ip
          else
            (let gs = map (\<lambda>g. 256 * unat (g ! 0) + unat (g ! 1)) (chunks 2 ip)
             in case zero_run gs of
               None \<Rightarrow> join '':'' (map appendHex gs)
             | Some (e0, e1) \<Rightarrow>
                 join '':'' (map appendHex (take e0 gs)) @ ''::'' @
                 join '':'' (map appendHex (drop e1 gs))))"

definition ip4BtS :: "byte list \<Rightarrow> string" where
  "ip4BtS b = IP_String b"

definition ip6BtS :: "byte list \<Rightarrow> string" where
  "ip6BtS b = (case IP_To4 b of Some ip4 \<Rightarrow> ''::ffff:'' @ IP_String ip4 | None \<Rightarrow> IP_String b)"

definition portBtS :: "byte list \<Rightarrow> string" where
  "portBtS b = (case b of b0 # b1 # _ \<Rightarrow> Itoa (256 * unat b0 + unat b1) | _ \<Rightarrow> [])"

text \<open>
  The transcoder of \<^verbatim>\<open>ip6zone\<close> refuses an empty zone and a zone with a \<open>/\<close>.
\<close>

definition ip6zoneStB :: "string \<Rightarrow> addr_error + byte list" where
  "ip6zoneStB s =
     (if s = [] then Inl ErrEmptyZone
      else if CHR ''/'' \<in> set s then Inl ErrZoneSlash
      else Inr (map char_byte s))"

text \<open>
  The transcoder of \<^verbatim>\<open>certhash\<close>: the text of a value is a multibase text, in any
  encoding, of bytes that are a multihash; the value keeps the bytes, and its text is
  written in Base64url.
\<close>

definition certHashStB :: "string \<Rightarrow> addr_error + byte list" where
  "certHashStB s =
     (case multibase_Decode s of
        Inl err \<Rightarrow> Inl (MultibaseError err)
      | Inr (enc, data) \<Rightarrow>
          (case Decode_fields data of
             Inl err \<Rightarrow> Inl (MultihashError err)
           | Inr dh \<Rightarrow> Inr data))"

definition certHashBtS :: "byte list \<Rightarrow> mb_error + string" where
  "certHashBtS b = multibase_Encode Base64url b"

text \<open>
  \<^verbatim>\<open>Component.Value\<close>: the text of the bytes, empty for a protocol without value.
\<close>

definition Value :: "Component \<Rightarrow> string" where
  "Value c =
     (let p = Protocol c; b = RawValue c
      in if p = P_CERTHASH then (case certHashBtS b of Inl err \<Rightarrow> [] | Inr s \<Rightarrow> s)
         else if p = P_IP4 then ip4BtS b
         else if p = P_IP6 then ip6BtS b
         else if p = P_TCP \<or> p = P_UDP then portBtS b
         else if p = P_IP6ZONE \<or> p = P_UNIX then map byte_char b
         else [])"

text \<open>
  \<^verbatim>\<open>ValueForProtocol\<close>: the value of the first component of that protocol.
\<close>

definition ValueForProtocol :: "Multiaddr \<Rightarrow> nat \<Rightarrow> addr_error + string" where
  "ValueForProtocol m code =
     ForEach m (\<lambda>c r. if Protocol c = code then (False, Inr (Value c)) else (True, r))
       (Inl ErrProtocolNotFound)"

text \<open>
  \<^verbatim>\<open>NewComponent\<close> looks up the protocol by its name and reads the value from its
  text. The names given here are those of the protocols whose values are read from
  text in what follows: \<^verbatim>\<open>certhash\<close>, the zone of an IPv6 address, the path of a
  Unix socket, and the two protocols that have no value. The components of the other
  protocols are made from the bytes of a \<^verbatim>\<open>net.IP\<close> and from a port
  (\<open>FromIPAndZone\<close>, \<open>port_component\<close> below).
\<close>

definition protocols :: "(string \<times> nat) list" where
  "protocols = [(''ip6zone'', P_IP6ZONE), (''unix'', P_UNIX), (''quic'', P_QUIC),
     (''webtransport'', P_WEBTRANSPORT), (''certhash'', P_CERTHASH)]"

definition ProtocolWithName :: "string \<Rightarrow> nat" where
  "ProtocolWithName s = (case map_of protocols s of None \<Rightarrow> 0 | Some code \<Rightarrow> code)"

text \<open>
  \<^verbatim>\<open>ProtocolWithCode(code).Name\<close>
\<close>

definition ProtocolWithCode_Name :: "nat \<Rightarrow> string" where
  "ProtocolWithCode_Name code =
     (case find (\<lambda>p. snd p = code) protocols of None \<Rightarrow> [] | Some p \<Rightarrow> fst p)"

definition StringToBytes :: "nat \<Rightarrow> (string \<Rightarrow> addr_error + byte list) option" where
  "StringToBytes p =
     (if p = P_CERTHASH then Some certHashStB
      else if p = P_IP6ZONE then Some ip6zoneStB
      else if p = P_UNIX then Some (\<lambda>s. Inr (map char_byte s))
      else None)"

definition NewComponent :: "string \<Rightarrow> string \<Rightarrow> addr_error + Multiaddr" where
  "NewComponent protocol v =
     (let p = ProtocolWithName protocol
      in if p = 0 then Inl (ErrUnsupportedProtocol protocol)
         else case StringToBytes p of
           Some stb \<Rightarrow>
             (case stb v of Inl err \<Rightarrow> Inl err | Inr bts \<Rightarrow> Inr [Component p bts])
         | None \<Rightarrow>
             if v \<noteq> [] then Inl (ErrNoValue protocol) else Inr [Component p []])"

subsection \<open>go-multiaddr/net\<close>

text \<open>
  The implementations of \<^verbatim>\<open>net.Addr\<close>: \<^verbatim>\<open>*net.TCPAddr\<close> and \<^verbatim>\<open>*net.UDPAddr\<close>
  (IP, Port, Zone), \<^verbatim>\<open>*net.IPAddr\<close> (IP, Zone), \<^verbatim>\<open>*net.IPNet\<close> (IP, Mask),
  \<^verbatim>\<open>*net.UnixAddr\<close> (Name, Net), and any other, of which only the name of the
  network counts. A port is a natural number.
\<close>

datatype net_Addr =
    TCPAddr "byte list" nat string
  | UDPAddr "byte list" nat string
  | IPAddr "byte list" string
  | IPNet "byte list" "byte list"
  | UnixAddr string string
  | OtherAddr string

definition Network :: "net_Addr \<Rightarrow> string" where
  "Network a =
     (case a of
        TCPAddr ip port zone \<Rightarrow> ''tcp''
      | UDPAddr ip port zone \<Rightarrow> ''udp''
      | IPAddr ip zone \<Rightarrow> ''ip''
      | IPNet ip m \<Rightarrow> ''ip+net''
      | UnixAddr name net \<Rightarrow> net
      | OtherAddr network \<Rightarrow> network)"

text \<open>
  \<^verbatim>\<open>FromIPAndZone\<close> makes the component of an IPv4 address from \<^verbatim>\<open>To4\<close>, of an
  IPv6 address from its 16 bytes, after the component of its zone when it has one
  (the library goes through the text \<^verbatim>\<open>ip.String()\<close>, which is read back to the
  same bytes).
\<close>

definition FromIPAndZone :: "byte list \<Rightarrow> string \<Rightarrow> addr_error + Multiaddr" where
  "FromIPAndZone ip zone =
     (case IP_To4 ip of
        Some ip4 \<Rightarrow> Inr [Component P_IP4 ip4]
      | None \<Rightarrow>
          (case IP_To16 ip of
             Some ip16 \<Rightarrow>
               if zone = [] then Inr [Component P_IP6 ip16]
               else
                 (case NewComponent ''ip6zone'' zone of
                    Inl err \<Rightarrow> Inl err
                  | Inr z \<Rightarrow> Inr (Encapsulate z [Component P_IP6 ip16]))
           | None \<Rightarrow> Inl errIncorrectNetAddr))"

text \<open>
  The component of a port, which the library reads from the text
  \<^verbatim>\<open>fmt.Sprintf("/udp/%d", ac.Port)\<close>: two bytes, and a port of 65536 or more is
  refused.
\<close>

definition port_component :: "nat \<Rightarrow> nat \<Rightarrow> addr_error + Multiaddr" where
  "port_component code port =
     (if 65536 \<le> port then Inl (errors_New ''failed to parse port addr: greater than 65536'')
      else Inr [Component code [of_nat (port div 256), of_nat port]])"

text \<open>
  The conversions that \<^verbatim>\<open>net\<close> registers for the networks. Each checks the type of
  the address.
\<close>

definition parseTCPNetAddr :: "net_Addr \<Rightarrow> addr_error + Multiaddr" where
  "parseTCPNetAddr a =
     (case a of
        TCPAddr ip port zone \<Rightarrow>
          (case FromIPAndZone ip zone of
             Inl err \<Rightarrow> Inl errIncorrectNetAddr
           | Inr ipm \<Rightarrow>
               (case port_component P_TCP port of
                  Inl err \<Rightarrow> Inl errIncorrectNetAddr
                | Inr tcpm \<Rightarrow> Inr (Encapsulate ipm tcpm)))
      | _ \<Rightarrow> Inl errIncorrectNetAddr)"

definition parseUDPNetAddr :: "net_Addr \<Rightarrow> addr_error + Multiaddr" where
  "parseUDPNetAddr a =
     (case a of
        UDPAddr ip port zone \<Rightarrow>
          (case FromIPAndZone ip zone of
             Inl err \<Rightarrow> Inl errIncorrectNetAddr
           | Inr ipm \<Rightarrow>
               (case port_component P_UDP port of
                  Inl err \<Rightarrow> Inl errIncorrectNetAddr
                | Inr udpm \<Rightarrow> Inr (Encapsulate ipm udpm)))
      | _ \<Rightarrow> Inl errIncorrectNetAddr)"

definition parseIPNetAddr :: "net_Addr \<Rightarrow> addr_error + Multiaddr" where
  "parseIPNetAddr a =
     (case a of
        IPAddr ip zone \<Rightarrow> FromIPAndZone ip zone
      | _ \<Rightarrow> Inl errIncorrectNetAddr)"

definition parseIPPlusNetAddr :: "net_Addr \<Rightarrow> addr_error + Multiaddr" where
  "parseIPPlusNetAddr a =
     (case a of
        IPNet ip m \<Rightarrow> FromIPAndZone ip []
      | _ \<Rightarrow> Inl errIncorrectNetAddr)"

definition parseUnixNetAddr :: "net_Addr \<Rightarrow> addr_error + Multiaddr" where
  "parseUnixNetAddr a =
     (case a of
        UnixAddr name net \<Rightarrow>
          NewComponent ''unix''
            (if name = [] \<or> hd name \<noteq> CHR ''/'' then CHR ''/'' # name else name)
      | _ \<Rightarrow> Inl errIncorrectNetAddr)"

text \<open>
  \<^verbatim>\<open>manet.FromNetAddr\<close> takes the conversion registered for the network of the
  address.
\<close>

definition FromNetAddr :: "net_Addr \<Rightarrow> addr_error + Multiaddr" where
  "FromNetAddr a =
     (let network = Network a
      in if network \<in> set [''tcp'', ''tcp4'', ''tcp6''] then parseTCPNetAddr a
         else if network \<in> set [''udp'', ''udp4'', ''udp6''] then parseUDPNetAddr a
         else if network \<in> set [''ip'', ''ip4'', ''ip6''] then parseIPNetAddr a
         else if network = ''ip+net'' then parseIPPlusNetAddr a
         else if network = ''unix'' then parseUnixNetAddr a
         else Inl (ErrUnknownNetwork network))"

subsection \<open>go-multiaddr-fmt\<close>

text \<open>
  \<^verbatim>\<open>mafmt.Base\<close>, \<^verbatim>\<open>mafmt.And\<close>, \<^verbatim>\<open>mafmt.Or\<close>. \<^verbatim>\<open>partialMatch\<close> returns the
  protocols that are left when a pattern matches the first ones (\<open>None\<close> when it does
  not), and \<^verbatim>\<open>Matches\<close> asks for none to be left.
\<close>

datatype Pattern =
    Base nat
  | And "Pattern list"
  | Or "Pattern list"

fun partialMatch :: "Pattern \<Rightarrow> nat list \<Rightarrow> nat list option"
  and partialMatch_or :: "Pattern list \<Rightarrow> nat list \<Rightarrow> nat list option"
  and partialMatch_and :: "Pattern list \<Rightarrow> nat list \<Rightarrow> nat list option" where
  "partialMatch (Base p) pcs =
     (case pcs of [] \<Rightarrow> None | c # rest \<Rightarrow> if c = p then Some rest else None)"
| "partialMatch (Or args) pcs = partialMatch_or args pcs"
| "partialMatch (And args) pcs =
     (if length pcs < length args then None else partialMatch_and args pcs)"
| "partialMatch_or [] pcs = None"
| "partialMatch_or (a # args) pcs =
     (case partialMatch a pcs of Some rem \<Rightarrow> Some rem | None \<Rightarrow> partialMatch_or args pcs)"
| "partialMatch_and [] pcs = Some pcs"
| "partialMatch_and (a # args) pcs =
     (case partialMatch a pcs of None \<Rightarrow> None | Some rem \<Rightarrow> partialMatch_and args rem)"

definition Matches :: "Pattern \<Rightarrow> Multiaddr \<Rightarrow> bool" where
  "Matches ptrn a =
     (case ptrn of
        Base p \<Rightarrow> Protocols a = [p]
      | _ \<Rightarrow> partialMatch ptrn (Protocols a) = Some [])"

text \<open>
  \<^verbatim>\<open>mafmt.IP\<close>
\<close>

definition IP :: Pattern where
  "IP = Or [Base P_IP4, Base P_IP6]"

section \<open>\<^verbatim>\<open>multiaddr.go\<close>\<close>

text \<open>
  \<^verbatim>\<open>var webtransportMA = ma.StringCast("/quic/webtransport")\<close>: two components
  without value.
\<close>

definition webtransportMA :: Multiaddr where
  "webtransportMA = [Component P_QUIC [], Component P_WEBTRANSPORT []]"

text \<open>
  \<^verbatim>\<open>var webtransportMatcher = mafmt.And(mafmt.IP, mafmt.Base(ma.P_UDP),
  mafmt.Base(ma.P_QUIC), mafmt.Base(ma.P_WEBTRANSPORT))\<close>
\<close>

definition webtransportMatcher :: Pattern where
  "webtransportMatcher = And [IP, Base P_UDP, Base P_QUIC, Base P_WEBTRANSPORT]"

text \<open>
  \<^verbatim>\<open>toWebtransportMultiaddr\<close>
\<close>

definition toWebtransportMultiaddr :: "net_Addr \<Rightarrow> addr_error + Multiaddr" where
  "toWebtransportMultiaddr na =
     (case FromNetAddr na of
        Inl err \<Rightarrow> Inl err
      | Inr addr \<Rightarrow>
          (case ValueForProtocol addr P_UDP of
             Inl err \<Rightarrow> Inl (errors_New ''not a UDP address'')
           | Inr v \<Rightarrow> Inr (Encapsulate addr webtransportMA)))"

text \<open>
  \<^verbatim>\<open>extractCertHashes\<close> first collects the texts of the values of the
  \<^verbatim>\<open>certhash\<close> components, then decodes them one after the other
  (\<open>decode_loop\<close>, with the slice \<^verbatim>\<open>certHashes\<close> that it appends to) and returns
  nil and the error at the first text that fails.
\<close>

fun decode_loop ::
  "(nat \<Rightarrow> string) \<Rightarrow> string list \<Rightarrow> DecodedMultihash list \<Rightarrow>
     addr_error + DecodedMultihash list" where
  "decode_loop Codes [] certHashes = Inr certHashes"
| "decode_loop Codes (s # strs) certHashes =
     (case multibase_Decode s of
        Inl err \<Rightarrow>
          Inl (fmt_Errorf ''failed to multibase-decode certificate hash'' (MultibaseError err))
      | Inr (enc, ch) \<Rightarrow>
          (case multihash_Decode Codes ch of
             Inl err \<Rightarrow>
               Inl (fmt_Errorf ''failed to multihash-decode certificate hash'' (MultihashError err))
           | Inr dh \<Rightarrow> decode_loop Codes strs (certHashes @ [dh])))"

definition extractCertHashes ::
  "(nat \<Rightarrow> string) \<Rightarrow> Multiaddr \<Rightarrow> addr_error + DecodedMultihash list" where
  "extractCertHashes Codes addr =
     (let certHashesStr =
        ForEach addr
          (\<lambda>c strs. (True, if Protocol c = P_CERTHASH then strs @ [Value c] else strs)) []
      in decode_loop Codes certHashesStr [])"

text \<open>
  \<^verbatim>\<open>addrComponentForCert\<close>
\<close>

definition addrComponentForCert :: "byte list \<Rightarrow> addr_error + Multiaddr" where
  "addrComponentForCert hash =
     (case multihash_Encode hash SHA2_256 of
        Inl err \<Rightarrow> Inl (MultihashError err)
      | Inr mh \<Rightarrow>
          (case multibase_Encode Base58BTC mh of
             Inl err \<Rightarrow> Inl (MultibaseError err)
           | Inr certStr \<Rightarrow> NewComponent (ProtocolWithCode_Name P_CERTHASH) certStr))"

subsection \<open>Dialable and listenable addresses\<close>

text \<open>
  \<^verbatim>\<open>CanDial\<close> and \<^verbatim>\<open>Listen\<close> are in \<^verbatim>\<open>transport.go\<close>, which is not among the
  sources. The two predicates are written from the specification, over
  \<^verbatim>\<open>webtransportMatcher\<close> of \<^verbatim>\<open>multiaddr.go\<close>.
\<close>

text \<open>
  Modelled from the spec: an address without the certificate hashes at its end.
\<close>

definition withoutCertHashes :: "Multiaddr \<Rightarrow> Multiaddr" where
  "withoutCertHashes a = rev (dropWhile (\<lambda>c. Protocol c = P_CERTHASH) (rev a))"

text \<open>
  Modelled from the spec: a listenable address has a network, a port and the two
  protocol markers, in this order, and no certificate hash.
\<close>

definition isListenable :: "Multiaddr \<Rightarrow> bool" where
  "isListenable a = Matches webtransportMatcher a"

text \<open>
  Modelled from the spec: a dialable address is the same, followed by zero or more
  certificate hashes.
\<close>

definition isDialable :: "Multiaddr \<Rightarrow> bool" where
  "isDialable a = Matches webtransportMatcher (withoutCertHashes a)"

section \<open>The listener\<close>

subsection \<open>Collaborators\<close>

text \<open>
  \<^verbatim>\<open>*webtransport.Conn\<close>, its streams, the HTTP upgrade requests and the keys are
  opaque to the listener: they are identified by a number.
\<close>

datatype Conn = Conn nat
datatype Stream = Stream nat
datatype Request = Request nat
datatype Transport = Transport nat
type_synonym PrivKey = "byte list"
type_synonym PubKey = "byte list"

datatype error =
    errClosed
  | DeadlineExceeded
  | Canceled
  | Error string

text \<open>\<^verbatim>\<open>&webtransportStream{Stream: str, wconn: c}\<close>\<close>

record webtransportStream =
  Stream :: Stream
  wconn :: Conn

text \<open>What \<^verbatim>\<open>noise.SecureInbound\<close> returns: the listener reads the two keys.\<close>

record SecureConn =
  LocalPrivateKey :: PrivKey
  RemotePublicKey :: PubKey

text \<open>
  \<^verbatim>\<open>tpt.CapableConn\<close>, as \<^verbatim>\<open>newConn(l.transport, c, privKey, remotePubKey)\<close> is given it.
\<close>

record CapableConn =
  conn_transport :: Transport
  conn_wconn :: Conn
  conn_privKey :: PrivKey
  conn_remotePubKey :: PubKey

text \<open>
  The environment of the listener: the results of the calls it makes on its
  collaborators. A context that expires or is cancelled shows as the error result of
  the call that was waiting (\<open>DeadlineExceeded\<close>, \<open>Canceled\<close>). \<^verbatim>\<open>newConn\<close> is defined
  in \<^verbatim>\<open>conn.go\<close>, which is not among the sources, and is a parameter here.
\<close>

record env =
  Upgrade :: "Request \<Rightarrow> error + Conn"
  AcceptStream :: "Conn \<Rightarrow> error + Stream"
  SecureInbound :: "webtransportStream \<Rightarrow> error + SecureConn"
  newConn :: "Transport \<Rightarrow> Conn \<Rightarrow> PrivKey \<Rightarrow> PubKey \<Rightarrow> error + CapableConn"
  server_Close :: "error option"

subsection \<open>The listener and its state\<close>

definition queueLen :: nat where
  "queueLen = 16"

text \<open>The fields of \<^verbatim>\<open>listener\<close> that are set once, by \<^verbatim>\<open>newListener\<close>.\<close>

record listener =
  transport :: Transport
  multiaddr :: Multiaddr

text \<open>
  Where a call of \<^verbatim>\<open>Accept\<close> stands: at the non-blocking \<^verbatim>\<open>select\<close> that opens each
  round of its loop, at the blocking \<^verbatim>\<open>select\<close>, or returned.
\<close>

datatype accept_pc =
    AtCheck
  | AtSelect
  | Returned "error + CapableConn"

text \<open>Where a call of \<^verbatim>\<open>Close\<close> stands.\<close>

datatype close_pc =
    NotCalled
  | Cancelled
  | Waiting "error option"
  | CloseReturned "error option"

text \<open>
  The mutable state: the context of the listener, the channel \<^verbatim>\<open>l.queue\<close>, the server
  and the channel \<^verbatim>\<open>serverClosed\<close>, the sessions that were closed, and for the call
  of \<^verbatim>\<open>Accept\<close> its position, its local channel \<^verbatim>\<open>queue\<close> (\<open>results\<close>) and the
  handshake goroutines it has started (\<open>tasks\<close>).
\<close>

record state =
  ctx_done :: bool
  l_queue :: "Conn list"
  server_closed :: bool
  serverClosed :: bool
  closed_sessions :: "Conn list"
  acc_pc :: accept_pc
  results :: "CapableConn list"
  tasks :: "Conn list"
  cl_pc :: close_pc

subsection \<open>\<^verbatim>\<open>handshake\<close> and the goroutine of \<^verbatim>\<open>Accept\<close>\<close>

definition handshake :: "env \<Rightarrow> listener \<Rightarrow> Conn \<Rightarrow> error + CapableConn" where
  "handshake e l c =
     (case AcceptStream e c of
        Inl err \<Rightarrow> Inl err
      | Inr str \<Rightarrow>
          (case SecureInbound e \<lparr>Stream = str, wconn = c\<rparr> of
             Inl err \<Rightarrow> Inl err
           | Inr conn \<Rightarrow>
               newConn e (transport l) c (LocalPrivateKey conn) (RemotePublicKey conn)))"

text \<open>
  The goroutine started for a session taken from \<^verbatim>\<open>l.queue\<close>: on an error of
  \<^verbatim>\<open>handshake\<close> it closes the session and ends, otherwise it sends the connection on
  the channel of the call, which blocks while that channel is full (\<open>None\<close>).
\<close>

definition handshake_task :: "env \<Rightarrow> listener \<Rightarrow> Conn \<Rightarrow> state \<Rightarrow> state option" where
  "handshake_task e l c s =
     (case handshake e l c of
        Inl err \<Rightarrow>
          Some (s\<lparr>closed_sessions := c # closed_sessions s, tasks := remove1 c (tasks s)\<rparr>)
      | Inr conn \<Rightarrow>
          if length (results s) < queueLen
          then Some (s\<lparr>results := results s @ [conn], tasks := remove1 c (tasks s)\<rparr>)
          else None)"

subsection \<open>The handler of the upgrade endpoint\<close>

text \<open>
  The handler registered by \<^verbatim>\<open>newListener\<close>: a failed upgrade answers status 500; an
  upgraded session is sent on \<^verbatim>\<open>l.queue\<close>, and the send blocks while the channel holds
  \<open>queueLen\<close> sessions.
\<close>

datatype handler_result =
    Status500
  | Enqueued state
  | BlockedOnSend Conn

definition upgrade_handler :: "env \<Rightarrow> Request \<Rightarrow> state \<Rightarrow> handler_result" where
  "upgrade_handler e r s =
     (case Upgrade e r of
        Inl err \<Rightarrow> Status500
      | Inr c \<Rightarrow>
          if length (l_queue s) < queueLen
          then Enqueued (s\<lparr>l_queue := l_queue s @ [c]\<rparr>)
          else BlockedOnSend c)"

subsection \<open>The steps of \<^verbatim>\<open>Accept\<close> and \<^verbatim>\<open>Close\<close>\<close>

text \<open>
  One round of the loop of \<^verbatim>\<open>Accept\<close> is two steps. The first \<^verbatim>\<open>select\<close> has a
  \<^verbatim>\<open>default\<close> case and never blocks.
\<close>

definition accept_check :: "state \<Rightarrow> state option" where
  "accept_check s =
     (if acc_pc s \<noteq> AtCheck then None
      else if ctx_done s then Some (s\<lparr>acc_pc := Returned (Inl errClosed)\<rparr>)
      else Some (s\<lparr>acc_pc := AtSelect\<rparr>))"

text \<open>
  The second \<^verbatim>\<open>select\<close> has three cases, and Go takes any one of those that can
  proceed. Each case is a step of its own, enabled when its channel is ready.
\<close>

definition accept_pop :: "state \<Rightarrow> state option" where
  "accept_pop s =
     (if acc_pc s \<noteq> AtSelect then None
      else case l_queue s of
        [] \<Rightarrow> None
      | c # q \<Rightarrow> Some (s\<lparr>l_queue := q, tasks := tasks s @ [c], acc_pc := AtCheck\<rparr>))"

definition accept_result :: "state \<Rightarrow> state option" where
  "accept_result s =
     (if acc_pc s \<noteq> AtSelect then None
      else case results s of
        [] \<Rightarrow> None
      | conn # r \<Rightarrow> Some (s\<lparr>results := r, acc_pc := Returned (Inr conn)\<rparr>))"

definition accept_done :: "state \<Rightarrow> state option" where
  "accept_done s =
     (if acc_pc s = AtSelect \<and> ctx_done s
      then Some (s\<lparr>acc_pc := Returned (Inl errClosed)\<rparr>)
      else None)"

text \<open>
  \<^verbatim>\<open>Close\<close> cancels the context, closes the server and keeps its error, waits for
  \<^verbatim>\<open>serverClosed\<close> and returns the error. The serving goroutine closes
  \<^verbatim>\<open>serverClosed\<close> when \<^verbatim>\<open>Serve\<close> has returned: once the server is closed, or
  earlier when serving fails.
\<close>

definition close_cancel :: "state \<Rightarrow> state option" where
  "close_cancel s =
     (if cl_pc s = NotCalled then Some (s\<lparr>ctx_done := True, cl_pc := Cancelled\<rparr>) else None)"

definition close_server :: "env \<Rightarrow> state \<Rightarrow> state option" where
  "close_server e s =
     (if cl_pc s = Cancelled
      then Some (s\<lparr>server_closed := True, cl_pc := Waiting (server_Close e)\<rparr>)
      else None)"

definition serve_return :: "state \<Rightarrow> state option" where
  "serve_return s =
     (if serverClosed s then None else Some (s\<lparr>serverClosed := True\<rparr>))"

definition close_wait :: "state \<Rightarrow> state option" where
  "close_wait s =
     (case cl_pc s of
        Waiting err \<Rightarrow> if serverClosed s then Some (s\<lparr>cl_pc := CloseReturned err\<rparr>) else None
      | _ \<Rightarrow> None)"

subsection \<open>Schedules\<close>

text \<open>
  An event is one step of one goroutine; \<open>fire\<close> is \<open>None\<close> when the goroutine cannot
  take the step in that state (it is elsewhere, or blocked). A run of the listener is a
  list of events.
\<close>

datatype event =
    AcceptCheck
  | AcceptPop
  | AcceptResult
  | AcceptDone
  | TaskDone Conn
  | Handler Request
  | CloseCancel
  | CloseServer
  | ServeReturn
  | CloseWait

fun fire :: "env \<Rightarrow> listener \<Rightarrow> event \<Rightarrow> state \<Rightarrow> state option" where
  "fire e l AcceptCheck s = accept_check s"
| "fire e l AcceptPop s = accept_pop s"
| "fire e l AcceptResult s = accept_result s"
| "fire e l AcceptDone s = accept_done s"
| "fire e l (TaskDone c) s = (if c \<in> set (tasks s) then handshake_task e l c s else None)"
| "fire e l (Handler r) s =
     (case upgrade_handler e r s of Enqueued s' \<Rightarrow> Some s' | _ \<Rightarrow> None)"
| "fire e l CloseCancel s = close_cancel s"
| "fire e l CloseServer s = close_server e s"
| "fire e l ServeReturn s = serve_return s"
| "fire e l CloseWait s = close_wait s"

fun exec :: "env \<Rightarrow> listener \<Rightarrow> event list \<Rightarrow> state \<Rightarrow> state option" where
  "exec e l [] s = Some s"
| "exec e l (ev # evs) s =
     (case fire e l ev s of None \<Rightarrow> None | Some s' \<Rightarrow> exec e l evs s')"

text \<open>The state in which a call of \<^verbatim>\<open>Accept\<close> starts: its channel is new.\<close>

definition accept_called :: "state \<Rightarrow> bool" where
  "accept_called s \<longleftrightarrow> acc_pc s = AtCheck \<and> results s = [] \<and> tasks s = []"

text \<open>What a call of \<^verbatim>\<open>Accept\<close> holds: connections that \<^verbatim>\<open>handshake\<close> returned.\<close>

definition established :: "env \<Rightarrow> listener \<Rightarrow> CapableConn \<Rightarrow> bool" where
  "established e l conn \<longleftrightarrow> (\<exists>c. handshake e l c = Inr conn)"

definition accept_inv :: "env \<Rightarrow> listener \<Rightarrow> state \<Rightarrow> bool" where
  "accept_inv e l s \<longleftrightarrow>
     (\<forall>conn \<in> set (results s). established e l conn) \<and>
     (\<forall>r. acc_pc s = Returned r \<longrightarrow>
        r = Inl errClosed \<or> (\<exists>conn. r = Inr conn \<and> established e l conn))"

text \<open>What \<^verbatim>\<open>Close\<close> has done at each of its positions.\<close>

definition close_inv :: "env \<Rightarrow> state \<Rightarrow> bool" where
  "close_inv e s =
     (case cl_pc s of
        NotCalled \<Rightarrow> True
      | Cancelled \<Rightarrow> ctx_done s
      | Waiting err \<Rightarrow> ctx_done s \<and> server_closed s \<and> err = server_Close e
      | CloseReturned err \<Rightarrow>
          ctx_done s \<and> server_closed s \<and> serverClosed s \<and> err = server_Close e)"

text \<open>The states the call of \<^verbatim>\<open>Accept\<close> can reach by one step of its own.\<close>

definition accept_steps :: "state \<Rightarrow> state list" where
  "accept_steps s =
     List.map_filter (\<lambda>step. step s) [accept_check, accept_pop, accept_result, accept_done]"

text \<open>A call of \<^verbatim>\<open>Close\<close> run to its end, with the serving goroutine.\<close>

definition close_schedule :: "state \<Rightarrow> event list" where
  "close_schedule s =
     [CloseCancel, CloseServer] @ (if serverClosed s then [] else [ServeReturn]) @ [CloseWait]"

subsection \<open>The certificate manager and \<^verbatim>\<open>Multiaddr\<close>\<close>

text \<open>
  Modelled from the spec: \<^verbatim>\<open>cert_manager.go\<close> is not among the sources. The
  certificate manager holds the hash of the current certificate and, once it has
  generated the next certificate, the hash of that one too. With a static TLS
  configuration there is no rotation and no hash.
\<close>

datatype certManager =
    StaticTLS
  | Rotating "byte list" "byte list option"

text \<open>Modelled from the spec: the hashes that the manager advertises now.\<close>

fun advertisedHashes :: "certManager \<Rightarrow> byte list list" where
  "advertisedHashes StaticTLS = []"
| "advertisedHashes (Rotating current None) = [current]"
| "advertisedHashes (Rotating current (Some nxt)) = [current, nxt]"

text \<open>
  Modelled from the spec: a rotation. The next certificate becomes the current one,
  and the new certificate the next one.
\<close>

fun rotateCerts :: "byte list \<Rightarrow> certManager \<Rightarrow> certManager" where
  "rotateCerts new StaticTLS = StaticTLS"
| "rotateCerts new (Rotating current None) = Rotating current (Some new)"
| "rotateCerts new (Rotating current (Some nxt)) = Rotating nxt (Some new)"

text \<open>
  Modelled from the spec: \<^verbatim>\<open>AddrComponent\<close> is the components of the advertised
  hashes, each built by \<^verbatim>\<open>addrComponentForCert\<close>.
\<close>

definition AddrComponent :: "certManager \<Rightarrow> Multiaddr" where
  "AddrComponent m =
     concat (map (\<lambda>h. case addrComponentForCert h of Inl err \<Rightarrow> [] | Inr c \<Rightarrow> c)
       (advertisedHashes m))"

text \<open>
  \<^verbatim>\<open>listener.Multiaddr\<close> asks the certificate manager at each call; the listener keeps
  the address it is bound to and nothing of the hashes.
\<close>

definition listener_Multiaddr :: "listener \<Rightarrow> certManager \<Rightarrow> Multiaddr" where
  "listener_Multiaddr l m = Encapsulate (multiaddr l) (AddrComponent m)"

subsection \<open>The resource manager and the connection gater\<close>

text \<open>
  The tests make the transport with a connection gater and a resource manager
  (\<^verbatim>\<open>New(key, gater, rcmgr)\<close>) and expect the listener to ask both about an inbound
  session: \<^verbatim>\<open>rcmgr.OpenConnection(network.DirInbound, false, addr)\<close>, which denies
  with an error, and \<^verbatim>\<open>gater.InterceptSecured(network.DirInbound, peer, conn)\<close>.
  Their answers are functions of the session and of the connection.
\<close>

record policies =
  OpenConnection :: "Conn \<Rightarrow> error option"
  InterceptSecured :: "CapableConn \<Rightarrow> bool"

text \<open>A session that the resource manager admits and whose connection the gater lets pass.\<close>

definition admitted :: "policies \<Rightarrow> Conn \<Rightarrow> CapableConn \<Rightarrow> bool" where
  "admitted p c conn \<longleftrightarrow> OpenConnection p c = None \<and> InterceptSecured p conn"

section \<open>Properties of the encodings\<close>

text \<open>
  What \<^verbatim>\<open>Encode\<close> of go-multibase writes, \<^verbatim>\<open>Decode\<close> reads back; what
  \<^verbatim>\<open>PutUvarint\<close> writes for a number below \<open>2 ^ 63\<close>, \<^verbatim>\<open>FromUvarint\<close> reads
  back, and it refuses what \<^verbatim>\<open>PutUvarint\<close> writes for a larger number.
\<close>

text \<open>
  The alphabets have as many different characters as their encoding needs, and no
  \<open>=\<close> when the encoding is padded.
\<close>

definition good_codec :: "codec \<Rightarrow> bool" where
  "good_codec c =
     (case c of
        Raw \<Rightarrow> True
      | Bits k a \<Rightarrow> distinct a \<and> length a = 2 ^ k \<and> 0 < k \<and> k \<le> 8
      | BitsPad k blk a \<Rightarrow>
          distinct a \<and> length a = 2 ^ k \<and> 0 < k \<and> k \<le> 8 \<and> 0 < blk \<and> CHR ''='' \<notin> set a
      | Bignum a \<Rightarrow> distinct a \<and> 2 \<le> length a
      | Unsupported \<Rightarrow> True)"

lemma from_digits_Nil [simp]: "from_digits b [] = 0"
  by (simp add: from_digits_def)

lemma from_digits_snoc [simp]: "from_digits b (ds @ [d]) = from_digits b ds * b + d"
  by (simp add: from_digits_def)

lemma from_to_digits: "2 \<le> b \<Longrightarrow> from_digits b (to_digits b n) = n"
proof (induction b n rule: to_digits.induct)
  case (1 b n)
  show ?case
  proof (cases "n = 0")
    case True
    then show ?thesis by (simp add: to_digits.simps)
  next
    case False
    with 1 have "from_digits b (to_digits b (n div b)) = n div b" by simp
    with False 1(2) show ?thesis
      by (subst to_digits.simps) simp
  qed
qed

lemma to_digits_bound: "2 \<le> b \<Longrightarrow> d \<in> set (to_digits b n) \<Longrightarrow> d < b"
proof (induction b n rule: to_digits.induct)
  case (1 b n)
  from 1(3) show ?case
    by (subst (asm) to_digits.simps) (use 1(1,2) in \<open>auto split: if_splits\<close>)
qed

lemma to_digits_hd: "2 \<le> b \<Longrightarrow> to_digits b n \<noteq> [] \<Longrightarrow> hd (to_digits b n) \<noteq> 0"
proof (induction b n rule: to_digits.induct)
  case (1 b n)
  show ?case
  proof (cases "n div b = 0")
    case True
    with 1(2,3) have "to_digits b n = [n mod b]" "n \<noteq> 0"
      by (auto simp: to_digits.simps [of b n] to_digits.simps [of b 0] split: if_splits)
    moreover from True 1(2) have "n < b"
      by (simp add: div_eq_0_iff)
    ultimately show ?thesis by simp
  next
    case False
    then have n: "n \<noteq> 0" by (cases "n = 0") simp_all
    from False 1(2) have ne: "to_digits b (n div b) \<noteq> []"
      by (simp add: to_digits.simps [of b "n div b"])
    with 1 n have "hd (to_digits b (n div b)) \<noteq> 0" by simp
    with ne n 1(2) show ?thesis
      by (simp add: to_digits.simps [of b n])
  qed
qed

lemma to_digits_0 [simp]: "to_digits b 0 = []"
  by (simp add: to_digits.simps)

lemma to_from_digits:
  assumes "2 \<le> b" and "\<forall>d \<in> set ds. d < b" and "ds \<noteq> [] \<longrightarrow> hd ds \<noteq> 0"
  shows "to_digits b (from_digits b ds) = ds"
  using assms(2,3)
proof (induction ds rule: rev_induct)
  case Nil
  then show ?case by simp
next
  case (snoc d ds)
  have d: "d < b" using snoc.prems by simp
  have ih: "to_digits b (from_digits b ds) = ds"
    using snoc by (cases ds) auto
  show ?case
  proof (cases "ds = []")
    case True
    with snoc.prems d assms(1) show ?thesis
      by (simp add: from_digits_def to_digits.simps [of b d])
  next
    case False
    with snoc.prems have "hd ds \<noteq> 0" by simp
    have "from_digits b ds \<noteq> 0"
    proof
      assume "from_digits b ds = 0"
      with ih have "ds = []" by simp
      with False show False by simp
    qed
    then have nz: "from_digits b ds * b + d \<noteq> 0" using assms(1) by simp
    have "(from_digits b ds * b + d) div b = from_digits b ds"
      using d by simp
    moreover have "(from_digits b ds * b + d) mod b = d"
      using d by simp
    ultimately show ?thesis
      using nz assms(1) ih by (simp add: to_digits.simps [of b "from_digits b ds * b + d"])
  qed
qed

lemma index_of_nth: "distinct xs \<Longrightarrow> i < length xs \<Longrightarrow> index_of xs (xs ! i) = Some i"
proof (induction xs arbitrary: i)
  case Nil
  then show ?case by simp
next
  case (Cons y ys)
  then show ?case
    by (cases i) (auto simp: nth_mem)
qed

lemma those_index_of:
  assumes "distinct xs" and "\<forall>d \<in> set ds. d < length xs"
  shows "those (map (index_of xs) (map ((!) xs) ds)) = Some ds"
  using assms(2) by (induction ds) (simp_all add: index_of_nth [OF assms(1)])

lemma from_digits_Cons_0 [simp]: "from_digits b (0 # ds) = from_digits b ds"
  by (simp add: from_digits_def)

lemma from_digits_replicate_0 [simp]: "from_digits b (replicate k 0 @ ds) = from_digits b ds"
  by (induction k) simp_all

lemma takeWhile_replicate_0:
  "ds \<noteq> [] \<longrightarrow> hd ds \<noteq> (0::nat) \<Longrightarrow> takeWhile (\<lambda>d. d = 0) (replicate k 0 @ ds) = replicate k 0"
proof (induction k)
  case 0
  then show ?case by (cases ds) auto
next
  case (Suc k)
  then show ?case by simp
qed

lemma takeWhile_eq_replicate:
  "takeWhile (\<lambda>b. b = z) xs = replicate (length (takeWhile (\<lambda>b. b = z) xs)) z"
  by (induction xs) auto

lemma to_digits_256_bytes:
  assumes "rest \<noteq> [] \<longrightarrow> hd rest \<noteq> (0::byte)"
  shows "map of_nat (to_digits 256 (from_digits 256 (map unat rest))) = rest"
proof -
  have "\<forall>d \<in> set (map unat rest). d < 256"
  proof
    fix d assume "d \<in> set (map unat rest)"
    then obtain w :: byte where "d = unat w" by auto
    then show "d < 256" using unsigned_less [of w] by simp
  qed
  moreover have "map unat rest \<noteq> [] \<longrightarrow> hd (map unat rest) \<noteq> 0"
    using assms by (cases rest) (auto simp: unat_eq_0)
  ultimately have "to_digits 256 (from_digits 256 (map unat rest)) = map unat rest"
    by (intro to_from_digits) simp_all
  then show ?thesis by (simp add: comp_def map_idI)
qed

lemma bignum_roundtrip:
  assumes "distinct alphabet" and "2 \<le> length alphabet" and "bin \<noteq> []"
  shows "bignum_decode alphabet (bignum_encode alphabet bin) = Inr bin"
proof -
  define k where "k = length (takeWhile (\<lambda>b. b = 0) bin)"
  define rest where "rest = dropWhile (\<lambda>b. b = 0) bin"
  define N where "N = length alphabet"
  define n where "n = from_digits 256 (map unat bin)"
  define D where "D = to_digits N n"
  have bin: "bin = replicate k 0 @ rest"
    unfolding k_def rest_def
    using takeWhile_eq_replicate [of 0 bin] takeWhile_dropWhile_id [of "\<lambda>b. b = 0" bin]
    by simp
  have rest: "rest \<noteq> [] \<longrightarrow> hd rest \<noteq> 0"
    unfolding rest_def using hd_dropWhile [of "\<lambda>b. b = 0" bin] by blast
  have n: "n = from_digits 256 (map unat rest)"
    unfolding n_def by (subst bin) simp
  have N: "2 \<le> N" using assms(2) by (simp add: N_def)
  have Db: "\<forall>d \<in> set D. d < N"
    unfolding D_def using N to_digits_bound by blast
  have Dh: "D \<noteq> [] \<longrightarrow> hd D \<noteq> 0"
    unfolding D_def using N to_digits_hd by blast
  have enc: "bignum_encode alphabet bin = map ((!) alphabet) (replicate k 0 @ D)"
    by (simp add: bignum_encode_def Let_def k_def D_def N_def n_def)
  have idx: "those (map (index_of alphabet) (map ((!) alphabet) (replicate k 0 @ D)))
      = Some (replicate k 0 @ D)"
    using Db N by (intro those_index_of [OF assms(1)]) (auto simp: N_def)
  have ne: "map ((!) alphabet) (replicate k 0 @ D) \<noteq> []"
  proof (cases "k = 0")
    case True
    with bin assms(3) have "rest \<noteq> []" by simp
    with rest have "hd rest \<noteq> 0" by simp
    have "n \<noteq> 0"
    proof
      assume "n = 0"
      with n have "to_digits 256 (from_digits 256 (map unat rest)) = []" by simp
      with to_digits_256_bytes [OF rest] have "rest = []" by simp
      with \<open>rest \<noteq> []\<close> show False by simp
    qed
    then have "D \<noteq> []"
      using N by (simp add: D_def to_digits.simps [of N n])
    then show ?thesis by simp
  next
    case False
    then show ?thesis by simp
  qed
  have val: "from_digits N (replicate k 0 @ D) = n"
    using N by (simp add: D_def from_to_digits)
  have "bignum_decode alphabet (bignum_encode alphabet bin)
      = Inr (replicate k 0 @ map of_nat (to_digits 256 n))"
    unfolding enc bignum_decode_def
    using ne idx val takeWhile_replicate_0 [OF Dh, of k]
    by (simp add: Let_def N_def)
  also have "\<dots> = Inr bin"
    using to_digits_256_bytes [OF rest] n bin by simp
  finally show ?thesis .
qed

lemma length_to_fixed [simp]: "length (to_fixed b w n) = w"
  by (induction w arbitrary: n) simp_all

lemma to_fixed_bound: "0 < b \<Longrightarrow> d \<in> set (to_fixed b w n) \<Longrightarrow> d < b"
  by (induction w arbitrary: n) auto

lemma from_to_fixed: "n < b ^ w \<Longrightarrow> from_digits b (to_fixed b w n) = n"
proof (induction w arbitrary: n)
  case 0
  then show ?case by simp
next
  case (Suc w)
  then have "0 < b" by (cases "b = 0") simp_all
  with Suc.prems have "n div b < b ^ w"
    by (simp add: less_mult_imp_div_less mult.commute)
  with Suc.IH show ?case by simp
qed

lemma to_from_fixed:
  "\<forall>d \<in> set ds. d < b \<Longrightarrow> to_fixed b (length ds) (from_digits b ds) = ds"
proof (induction ds rule: rev_induct)
  case Nil
  then show ?case by simp
next
  case (snoc d ds)
  then have "d < b" by simp
  then have "(from_digits b ds * b + d) div b = from_digits b ds"
    and "(from_digits b ds * b + d) mod b = d" by simp_all
  with snoc show ?case by simp
qed

lemma from_digits_less: "\<forall>d \<in> set ds. d < b \<Longrightarrow> from_digits b ds < b ^ length ds"
proof (induction ds rule: rev_induct)
  case Nil
  then show ?case by simp
next
  case (snoc d ds)
  then have d: "d < b" and ih: "from_digits b ds < b ^ length ds" by simp_all
  from ih have "from_digits b ds + 1 \<le> b ^ length ds" by simp
  then have "(from_digits b ds + 1) * b \<le> b ^ length ds * b"
    by (rule mult_le_mono1)
  with d show ?case by (simp add: algebra_simps)
qed

lemma chunks_Nil [simp]: "chunks k [] = []"
  by (simp add: chunks.simps)

lemma chunks_append:
  "0 < k \<Longrightarrow> length ys = k \<Longrightarrow> chunks k (ys @ zs) = ys # chunks k zs"
  by (subst chunks.simps) auto

lemma chunks_concat:
  "0 < k \<Longrightarrow> \<forall>xs \<in> set xss. length xs = k \<Longrightarrow> chunks k (concat xss) = xss"
  by (induction xss) (simp_all add: chunks_append)

lemma concat_chunks: "0 < k \<Longrightarrow> concat (chunks k xs) = xs"
proof (induction k xs rule: chunks.induct)
  case (1 k xs)
  then show ?case
    by (subst chunks.simps) auto
qed

lemma length_chunks:
  "0 < k \<Longrightarrow> k dvd length xs \<Longrightarrow> c \<in> set (chunks k xs) \<Longrightarrow> length c = k"
proof (induction k xs rule: chunks.induct)
  case (1 k xs)
  show ?case
  proof (cases "xs = []")
    case True
    with 1(4) show ?thesis by simp
  next
    case False
    with 1(3) have len: "k \<le> length xs"
      by (simp add: dvd_imp_le)
    with 1(3) have dv: "k dvd length (drop k xs)"
      by (simp add: dvd_diff_nat)
    from 1(4) False 1(2) have "c = take k xs \<or> c \<in> set (chunks k (drop k xs))"
      by (subst (asm) chunks.simps) auto
    then show ?thesis
    proof
      assume "c = take k xs"
      with len show ?thesis by simp
    next
      assume "c \<in> set (chunks k (drop k xs))"
      with 1(1) False 1(2) dv show ?thesis by simp
    qed
  qed
qed

lemma bits_byte_bits [simp]: "bits_byte (byte_bits b) = b"
proof -
  have "unat b < 2 ^ 8" using unsigned_less [of b] by simp
  then show ?thesis
    by (simp add: bits_byte_def byte_bits_def from_to_fixed)
qed

lemma length_byte_bits [simp]: "length (byte_bits b) = 8"
  by (simp add: byte_bits_def)

lemma byte_bits_bound: "d \<in> set (byte_bits b) \<Longrightarrow> d < 2"
  unfolding byte_bits_def using to_fixed_bound [of 2 d 8] by simp

lemma length_concat_byte_bits [simp]: "length (concat (map byte_bits bin)) = 8 * length bin"
  by (induction bin) simp_all

lemma pad_dvd: "0 < k \<Longrightarrow> k dvd n + (k - n mod k) mod k" for k n :: nat
proof -
  assume k: "0 < k"
  show ?thesis
  proof (cases "n mod k = 0")
    case True
    then show ?thesis by (simp add: dvd_eq_mod_eq_0)
  next
    case False
    then have lt: "k - n mod k < k" using k by simp
    have "n + (k - n mod k) = n div k * k + k"
      using mod_less_divisor [OF k, of n] div_mult_mod_eq [of n k] by linarith
    then have "k dvd n + (k - n mod k)" by simp
    with lt show ?thesis by simp
  qed
qed

lemma bits_roundtrip:
  assumes "distinct alphabet" and "length alphabet = 2 ^ k" and "0 < k" and "k \<le> 8"
  shows "bits_decode k alphabet (bits_encode k alphabet bin) = Inr bin"
proof -
  define bits where "bits = concat (map byte_bits bin)"
  define p where "p = (k - length bits mod k) mod k"
  define G where "G = chunks k (bits @ replicate p 0)"
  have lb: "length bits = 8 * length bin" by (simp add: bits_def)
  have p: "p < k" using assms(3) by (simp add: p_def)
  have bb: "\<forall>d \<in> set (bits @ replicate p 0). d < 2"
    using byte_bits_bound by (auto simp: bits_def)
  have dv: "k dvd length (bits @ replicate p 0)"
    using pad_dvd [OF assms(3), of "length bits"] by (simp add: p_def)
  have Gl: "\<forall>g \<in> set G. length g = k"
    using length_chunks [OF assms(3) dv] by (simp add: G_def)
  have Gc: "concat G = bits @ replicate p 0"
    by (simp add: G_def concat_chunks assms(3))
  have Gb: "\<forall>g \<in> set G. \<forall>d \<in> set g. d < 2"
  proof (intro ballI)
    fix g d assume "g \<in> set G" "d \<in> set g"
    then have "d \<in> set (concat G)" by auto
    with Gc bb show "d < 2" by simp
  qed
  have idx: "\<forall>i \<in> set (map (from_digits 2) G). i < length alphabet"
  proof
    fix i assume "i \<in> set (map (from_digits 2) G)"
    then obtain g where g: "g \<in> set G" "i = from_digits 2 g" by auto
    with Gb have "from_digits 2 g < 2 ^ length g" by (intro from_digits_less) simp
    with g Gl assms(2) show "i < length alphabet" by simp
  qed
  have enc: "bits_encode k alphabet bin = map ((!) alphabet) (map (from_digits 2) G)"
    by (simp add: bits_encode_def Let_def bits_def [symmetric] p_def [symmetric]
        G_def [symmetric] comp_def)
  have th: "those (map (index_of alphabet) (bits_encode k alphabet bin))
      = Some (map (from_digits 2) G)"
    unfolding enc using those_index_of [OF assms(1) idx] .
  have "map (to_fixed 2 k \<circ> from_digits 2) G = G"
  proof (rule map_idI)
    fix g assume g: "g \<in> set G"
    with Gl Gb to_from_fixed [of g 2] show "(to_fixed 2 k \<circ> from_digits 2) g = g" by auto
  qed
  then have "map (to_fixed 2 k) (map (from_digits 2) G) = G"
    by simp
  then have dec_bits: "concat (map (to_fixed 2 k) (map (from_digits 2) G)) = bits @ replicate p 0"
    using Gc by simp
  have lmod: "length (bits @ replicate p 0) mod 8 = p"
    using p assms(4) lb by simp
  have ldiv: "length (bits @ replicate p 0) div 8 * 8 = length bits"
    using p assms(4) lb by simp
  have "chunks 8 bits = map byte_bits bin"
    unfolding bits_def by (rule chunks_concat) simp_all
  then have bytes: "map bits_byte (chunks 8 bits) = bin"
    by (simp add: comp_def)
  have "bits_decode k alphabet (bits_encode k alphabet bin) =
      (let b = concat (map (to_fixed 2 k) (map (from_digits 2) G))
       in if k \<le> length b mod 8 then Inl ErrCorrupt
          else Inr (map bits_byte (chunks 8 (take (length b div 8 * 8) b))))"
    by (simp only: bits_decode_def th option.case)
  also have "\<dots> = Inr bin"
    unfolding dec_bits Let_def lmod ldiv using p bytes by simp
  finally show ?thesis .
qed

lemma bits_encode_subset:
  assumes "length alphabet = 2 ^ k" and "0 < k"
  shows "set (bits_encode k alphabet bin) \<subseteq> set alphabet"
proof -
  define bits where "bits = concat (map byte_bits bin)"
  define p where "p = (k - length bits mod k) mod k"
  define G where "G = chunks k (bits @ replicate p 0)"
  have bb: "\<forall>d \<in> set (bits @ replicate p 0). d < 2"
    using byte_bits_bound by (auto simp: bits_def)
  have dv: "k dvd length (bits @ replicate p 0)"
    using pad_dvd [OF assms(2), of "length bits"] by (simp add: p_def)
  have Gl: "\<forall>g \<in> set G. length g = k"
    using length_chunks [OF assms(2) dv] by (simp add: G_def)
  have Gc: "concat G = bits @ replicate p 0"
    by (simp add: G_def concat_chunks assms(2))
  have enc: "bits_encode k alphabet bin = map (\<lambda>g. alphabet ! from_digits 2 g) G"
    by (simp add: bits_encode_def Let_def bits_def [symmetric] p_def [symmetric]
        G_def [symmetric])
  show ?thesis
  proof
    fix c assume "c \<in> set (bits_encode k alphabet bin)"
    then obtain g where g: "g \<in> set G" "c = alphabet ! from_digits 2 g"
      unfolding enc by auto
    have "\<forall>d \<in> set g. d < 2"
    proof
      fix d assume "d \<in> set g"
      with g(1) have "d \<in> set (concat G)" by auto
      with Gc bb show "d < 2" by simp
    qed
    then have "from_digits 2 g < 2 ^ length g" by (rule from_digits_less)
    with g Gl assms(1) show "c \<in> set alphabet" by simp
  qed
qed

lemma pad_roundtrip:
  assumes "CHR ''='' \<notin> set s" and "0 < blk"
  shows "pad_decode blk (pad_encode blk s) = Some s"
proof -
  define q where "q = (blk - length s mod blk) mod blk"
  have q: "q < blk" using assms(2) by (simp add: q_def)
  have P: "\<And>x. x \<in> set s \<Longrightarrow> x \<noteq> CHR ''=''" using assms(1) by auto
  have tw: "takeWhile (\<lambda>c. c \<noteq> CHR ''='') (s @ replicate q (CHR ''='')) = s"
    using P by (cases q) (simp_all add: takeWhile_append2)
  have dw: "dropWhile (\<lambda>c. c \<noteq> CHR ''='') (s @ replicate q (CHR ''='')) = replicate q (CHR ''='')"
    using P by (cases q) (simp_all add: dropWhile_append2)
  have "blk dvd length s + q"
    unfolding q_def by (rule pad_dvd [OF assms(2)])
  then have md: "length (s @ replicate q (CHR ''='')) mod blk = 0" by auto
  show ?thesis
    unfolding pad_decode_def pad_encode_def q_def [symmetric] Let_def tw dw md
    using q by (simp add: list_all_iff)
qed

lemma char_byte_char [simp]: "char_byte (byte_char b) = b"
proof -
  have "unat b < 256" using unsigned_less [of b] by simp
  then show ?thesis by (simp add: char_byte_def byte_char_def)
qed

lemma codec_roundtrip:
  assumes "good_codec c" and "codec_encode c data = Some s" and "data \<noteq> []"
  shows "codec_decode c s = Inr data"
proof (cases c)
  case Raw
  with assms show ?thesis by (auto simp: comp_def)
next
  case (Bits k a)
  with assms show ?thesis by (auto simp: good_codec_def bits_roundtrip)
next
  case (BitsPad k blk a)
  with assms have g: "distinct a" "length a = 2 ^ k" "0 < k" "k \<le> 8" "0 < blk"
      "CHR ''='' \<notin> set a"
    by (simp_all add: good_codec_def)
  from bits_encode_subset [OF g(2,3)] g(6) have "CHR ''='' \<notin> set (bits_encode k a data)"
    by auto
  then have "pad_decode blk (pad_encode blk (bits_encode k a data))
      = Some (bits_encode k a data)"
    using g(5) by (rule pad_roundtrip)
  with BitsPad assms(2) g show ?thesis by (auto simp: bits_roundtrip)
next
  case (Bignum a)
  with assms show ?thesis by (auto simp: good_codec_def bignum_roundtrip)
next
  case Unsupported
  with assms show ?thesis by simp
qed

lemma alphabets_good:
  "distinct alphabet2 \<and> length alphabet2 = 2"
  "distinct alphabet16 \<and> length alphabet16 = 16 \<and> CHR ''='' \<notin> set alphabet16"
  "distinct alphabet16upper \<and> length alphabet16upper = 16"
  "distinct alphabet32 \<and> length alphabet32 = 32 \<and> CHR ''='' \<notin> set alphabet32"
  "distinct alphabet32upper \<and> length alphabet32upper = 32 \<and> CHR ''='' \<notin> set alphabet32upper"
  "distinct alphabet32hex \<and> length alphabet32hex = 32 \<and> CHR ''='' \<notin> set alphabet32hex"
  "distinct alphabet32hexupper \<and> length alphabet32hexupper = 32 \<and>
     CHR ''='' \<notin> set alphabet32hexupper"
  "distinct alphabet36 \<and> length alphabet36 = 36"
  "distinct alphabet36upper \<and> length alphabet36upper = 36"
  "distinct alphabet58btc \<and> length alphabet58btc = 58"
  "distinct alphabet58flickr \<and> length alphabet58flickr = 58"
  "distinct alphabet64 \<and> length alphabet64 = 64 \<and> CHR ''='' \<notin> set alphabet64"
  "distinct alphabet64url \<and> length alphabet64url = 64 \<and> CHR ''='' \<notin> set alphabet64url"
  by (simp_all add: alphabet2_def alphabet16_def alphabet16upper_def alphabet32_def
      alphabet32upper_def alphabet32hex_def alphabet32hexupper_def alphabet36_def
      alphabet36upper_def alphabet58btc_def alphabet58flickr_def alphabet64_def
      alphabet64url_def)

lemma good_codec_of: "good_codec (codec_of enc)"
  by (cases enc) (simp_all add: good_codec_def alphabets_good)

lemma find_Encoding_char: "find (\<lambda>e. Encoding_char e = Encoding_char enc) encodings = Some enc"
  by (cases enc) (simp_all add: encodings_def)

lemma multibase_roundtrip:
  assumes "multibase_Encode enc data = Inr s" and "data \<noteq> []"
  shows "multibase_Decode s = Inr (enc, data)"
proof -
  from assms(1) obtain body where body: "codec_encode (codec_of enc) data = Some body"
    and s: "s = Encoding_char enc # body"
    by (auto simp: multibase_Encode_def split: option.splits)
  have "codec_decode (codec_of enc) body = Inr data"
    using good_codec_of body assms(2) by (rule codec_roundtrip)
  then show ?thesis
    by (simp add: multibase_Decode_def s find_Encoding_char)
qed

lemma bit_128_nat: "bit (128 :: nat) n \<longleftrightarrow> n = 7"
  using bit_exp_iff [where ?'a = nat, of 7 n] by simp

lemma bit_128_byte: "bit (128 :: byte) n \<longleftrightarrow> n = 7"
  using bit_exp_iff [where ?'a = byte, of 7 n] by (auto simp: possible_bit_word)

lemma word_or_0x80_take_bit: "(of_nat x :: byte) OR 128 = of_nat (take_bit 7 x) OR 128"
proof (rule bit_word_eqI)
  fix n assume "n < LENGTH(8)"
  then have n: "n < 8" by simp
  show "bit (word_of_nat x OR (128 :: byte)) n = bit (word_of_nat (take_bit 7 x) OR (128 :: byte)) n"
  proof (cases "n = 7")
    case True
    then show ?thesis by (simp add: bit_or_iff bit_128_byte)
  next
    case False
    with n have "n < 7" by simp
    then show ?thesis by (simp add: bit_or_iff bit_128_byte bit_simps)
  qed
qed

lemma take_bit_or_128: "take_bit 7 x OR (128::nat) = take_bit 7 x + 128"
  apply (rule disjunctive_add [symmetric])
  apply (auto simp: bit_simps bit_128_nat)
  done

lemma byte_or_0x80: "(of_nat x :: byte) OR 0x80 = of_nat (x mod 128 + 128)"
proof -
  have "(of_nat x :: byte) OR 128 = of_nat (take_bit 7 x) OR of_nat 128"
    using word_or_0x80_take_bit [of x] by simp
  also have "\<dots> = of_nat (take_bit 7 x OR 128)"
    by (simp add: of_nat_or_eq)
  also have "\<dots> = of_nat (take_bit 7 x + 128)"
    by (simp only: take_bit_or_128)
  also have "\<dots> = of_nat (x mod 128 + 128)"
    by (simp add: take_bit_eq_mod)
  finally show ?thesis by simp
qed

lemma byte_and_0x7f: "unat ((w :: byte) AND 0x7f) = unat w mod 128"
proof -
  have "(0x7f :: byte) = mask 7" by (simp add: mask_eq_exp_minus_1)
  then have "w AND 0x7f = take_bit 7 w" by (simp only: take_bit_eq_mask)
  then have "unat (w AND 0x7f) = take_bit 7 (unat w)" by (simp only: unsigned_take_bit_eq)
  then show ?thesis by (simp add: take_bit_eq_mod)
qed

lemma or_push_bit_eq_add: "x < 2 ^ s \<Longrightarrow> x OR push_bit s y = x + y * 2 ^ s" for x y :: nat
proof -
  assume "x < 2 ^ s"
  then have t: "take_bit s x = x" by (simp add: take_bit_nat_eq_self)
  then have "x OR push_bit s y = take_bit s x OR push_bit s y" by simp
  also have "\<dots> = take_bit s x + push_bit s y"
    by (rule disjunctive_add [symmetric]) (auto simp: bit_simps)
  finally show ?thesis using t by (simp add: push_bit_eq_mult)
qed

lemma length_PutUvarint_pos: "0 < length (PutUvarint m)"
  by (subst PutUvarint.simps) simp

lemma length_PutUvarint_le: "0 < k \<Longrightarrow> m < 2 ^ (7 * k) \<Longrightarrow> length (PutUvarint m) \<le> k"
proof (induction m arbitrary: k rule: PutUvarint.induct)
  case (1 x)
  show ?case
  proof (cases "0x80 \<le> x")
    case False
    with 1(2) show ?thesis by (subst PutUvarint.simps) simp
  next
    case True
    have k1: "1 < k"
    proof (rule ccontr)
      assume "\<not> 1 < k"
      with 1(2) have "k = 1" by simp
      with 1(3) True show False by simp
    qed
    then obtain j where j: "k = Suc j" "0 < j" by (cases k) auto
    from 1(3) j have "x < 128 * 2 ^ (7 * j)" by (simp add: power_add)
    then have "x div 128 < 2 ^ (7 * j)" by (simp add: less_mult_imp_div_less mult.commute)
    with 1(1) True j have "length (PutUvarint (drop_bit 7 x)) \<le> j"
      by (simp add: drop_bit_eq_div)
    with True j show ?thesis by (subst PutUvarint.simps) simp
  qed
qed

lemma loop_PutUvarint:
  assumes "x < 2 ^ (7 * i)" and "i + length (PutUvarint m) \<le> 9" and "0 < i \<longrightarrow> m \<noteq> 0"
  shows "FromUvarint_loop i (7 * i) x (PutUvarint m @ rest)
           = Inr (x + m * 2 ^ (7 * i), i + length (PutUvarint m))"
  using assms
proof (induction m arbitrary: i x rule: PutUvarint.induct)
  case (1 m)
  show ?case
  proof (cases "0x80 \<le> m")
    case False
    then have m: "m < 128" by simp
    have P: "PutUvarint m = [of_nat m]"
      using False by (subst PutUvarint.simps) simp
    have b: "(of_nat m :: byte) < 0x80" "unat (of_nat m :: byte) = m"
      using m by (simp_all add: word_less_nat_alt unat_of_nat)
    have nz: "\<not> ((of_nat m :: byte) = 0 \<and> 0 < 7 * i)"
      using 1(4) b(2) by (cases "m = 0") auto
    have i: "i \<le> 8" using 1(3) P by simp
    have nge: "\<not> (0x80 :: byte) \<le> of_nat m" using b(1) by simp
    show ?thesis
      unfolding P using i nge b nz or_push_bit_eq_add [OF 1(2), of m] by simp
  next
    case True
    define b :: byte where "b = of_nat m OR 0x80"
    define m' where "m' = drop_bit 7 m"
    have P: "PutUvarint m = b # PutUvarint m'"
      using True by (subst PutUvarint.simps) (simp add: b_def m'_def)
    have "unat (of_nat (m mod 128 + 128) :: byte) = (m mod 128 + 128) mod 2 ^ LENGTH(8)"
      by (rule unat_of_nat)
    moreover have "m mod 128 + 128 < 256"
      using mod_less_divisor [of 128 m] by linarith
    ultimately have bv: "unat b = m mod 128 + 128"
      unfolding b_def byte_or_0x80 by simp
    then have bge: "\<not> b < 0x80" by (simp add: word_less_nat_alt)
    have band: "unat (b AND 0x7f) = m mod 128"
      unfolding byte_and_0x7f bv by simp
    have "i + Suc (length (PutUvarint m')) \<le> 9"
      using 1(3) unfolding P by simp
    then have i: "i \<le> 7"
      using length_PutUvarint_pos [of m'] by linarith
    define x' where "x' = x + (m mod 128) * 2 ^ (7 * i)"
    have xor: "x OR push_bit (7 * i) (m mod 128) = x'"
      unfolding x'_def by (rule or_push_bit_eq_add [OF 1(2)])
    have "x' < 2 ^ (7 * i) + 127 * 2 ^ (7 * i)"
    proof -
      have "m mod 128 \<le> 127" by simp
      then have "(m mod 128) * 2 ^ (7 * i) \<le> 127 * 2 ^ (7 * i)" by (rule mult_le_mono1)
      with 1(2) show ?thesis unfolding x'_def by linarith
    qed
    then have x'b: "x' < 2 ^ (7 * (i + 1))" by (simp add: power_add)
    have m'nz: "m' \<noteq> 0" using True by (simp add: m'_def drop_bit_eq_div)
    have len: "(i + 1) + length (PutUvarint m') \<le> 9" using 1(3) P by simp
    have ih: "FromUvarint_loop (i + 1) (7 * (i + 1)) x' (PutUvarint m' @ rest)
        = Inr (x' + m' * 2 ^ (7 * (i + 1)), (i + 1) + length (PutUvarint m'))"
      using 1(1) [OF True x'b] len m'nz unfolding m'_def by blast
    have val: "x' + m' * 2 ^ (7 * (i + 1)) = x + m * 2 ^ (7 * i)"
    proof -
      have "m = m' * 128 + m mod 128" by (simp add: m'_def drop_bit_eq_div)
      then have "m * 2 ^ (7 * i) = (m' * 128 + m mod 128) * 2 ^ (7 * i)" by simp
      then show ?thesis by (simp add: x'_def power_add algebra_simps)
    qed
    have s: "7 * i + 7 = 7 * (i + 1)" by simp
    show ?thesis
      unfolding P using i bge ih val band xor
      by (simp add: s not_less [symmetric] del: mult_Suc_right)
  qed
qed

lemma FromUvarint_PutUvarint:
  assumes "n < 2 ^ 63"
  shows "FromUvarint (PutUvarint n @ rest) = Inr (n, length (PutUvarint n))"
proof -
  have "length (PutUvarint n) \<le> 9"
    using length_PutUvarint_le [of 9 n] assms by simp
  then show ?thesis
    unfolding FromUvarint_def using loop_PutUvarint [of 0 0 n rest] by simp
qed

lemma loop_PutUvarint_overflow:
  assumes "i \<le> 8" and "2 ^ (7 * (9 - i)) \<le> m"
  shows "FromUvarint_loop i s x (PutUvarint m @ rest) = Inl ErrOverflow"
  using assms
proof (induction m arbitrary: i s x rule: PutUvarint.induct)
  case (1 m)
  have "(2 :: nat) ^ 7 \<le> 2 ^ (7 * (9 - i))"
    using 1(2) by (intro power_increasing) simp_all
  with 1(3) have True: "0x80 \<le> m" by simp
  define b :: byte where "b = of_nat m OR 0x80"
  define m' where "m' = drop_bit 7 m"
  have P: "PutUvarint m = b # PutUvarint m'"
    using True by (subst PutUvarint.simps) (simp add: b_def m'_def)
  have "unat (of_nat (m mod 128 + 128) :: byte) = (m mod 128 + 128) mod 2 ^ LENGTH(8)"
    by (rule unat_of_nat)
  moreover have "m mod 128 + 128 < 256"
    using mod_less_divisor [of 128 m] by linarith
  ultimately have bv: "unat b = m mod 128 + 128"
    unfolding b_def byte_or_0x80 by simp
  then have bge: "\<not> b < 0x80" and bge': "0x80 \<le> b"
    by (simp_all add: word_less_nat_alt word_le_nat_alt)
  show ?case
  proof (cases "i = 8")
    case True
    then show ?thesis unfolding P using bge' by simp
  next
    case False
    with 1(2) have i: "i < 8" by simp
    then have e: "7 * (9 - i) = 7 + 7 * (9 - (i + 1))" by simp
    have "(2 :: nat) ^ (7 * (9 - (i + 1))) * 128 \<le> m"
      using 1(3) unfolding e power_add by (simp add: mult.commute)
    then have "2 ^ (7 * (9 - (i + 1))) \<le> m div 128"
      by (simp add: less_eq_div_iff_mult_less_eq)
    then have m': "2 ^ (7 * (9 - (i + 1))) \<le> m'"
      by (simp add: m'_def drop_bit_eq_div)
    have i1: "i + 1 \<le> 8" using i by simp
    have ih: "FromUvarint_loop (i + 1) s' x' (PutUvarint m' @ rest) = Inl ErrOverflow"
      for s' x'
      using 1(1) [OF True i1] m' unfolding m'_def by blast
    show ?thesis
      unfolding P using i bge ih by simp
  qed
qed

lemma uvarint_overflow:
  assumes "2 ^ 63 \<le> n"
  shows "uvarint (PutUvarint n @ rest) = Inl (ErrVarint ErrOverflow)"
  using loop_PutUvarint_overflow [of 0 n 0 0 rest] assms
  by (simp add: uvarint_def FromUvarint_def)

section \<open>Properties of the addresses\<close>

text \<open>
  The components of an address that are certificate hashes, and what the loop of
  \<^verbatim>\<open>extractCertHashes\<close> makes of the text of one of them.
\<close>

text \<open>
  The components of an address that are certificate hashes, in their order.
\<close>

definition certHashComponents :: "Multiaddr \<Rightarrow> Component list" where
  "certHashComponents addr = filter (\<lambda>c. Protocol c = P_CERTHASH) addr"

text \<open>
  What one round of the loop of \<^verbatim>\<open>extractCertHashes\<close> makes of a component: its
  decoded multihash, or the error that the function returns.
\<close>

definition certHash :: "(nat \<Rightarrow> string) \<Rightarrow> Component \<Rightarrow> addr_error + DecodedMultihash" where
  "certHash Codes c =
     (case multibase_Decode (Value c) of
        Inl err \<Rightarrow> Inl (fmt_Errorf ''failed to multibase-decode certificate hash'' (MultibaseError err))
      | Inr (enc, ch) \<Rightarrow>
          (case multihash_Decode Codes ch of
             Inl err \<Rightarrow>
               Inl (fmt_Errorf ''failed to multihash-decode certificate hash'' (MultihashError err))
           | Inr dh \<Rightarrow> Inr dh))"

text \<open>
  The multihash of a SHA2-256 digest: the code \<open>0x12\<close>, the length, the digest.
\<close>

definition sha2_256_multihash :: "byte list \<Rightarrow> byte list" where
  "sha2_256_multihash h = 0x12 # PutUvarint (length h) @ h"

text \<open>
  The components that \<^verbatim>\<open>FromIPAndZone\<close> makes of an address and its zone.
\<close>

definition ip_components :: "byte list \<Rightarrow> string \<Rightarrow> Multiaddr" where
  "ip_components ip zone =
     (case IP_To4 ip of
        Some ip4 \<Rightarrow> [Component P_IP4 ip4]
      | None \<Rightarrow>
          if zone = [] then [Component P_IP6 ip]
          else [Component P_IP6ZONE (map char_byte zone), Component P_IP6 ip])"

lemmas protocol_codes =
  P_IP4_def P_TCP_def P_IP6_def P_IP6ZONE_def P_UDP_def P_UNIX_def P_QUIC_def
  P_WEBTRANSPORT_def P_CERTHASH_def

lemma uvarint_PutUvarint:
  assumes "n < 2 ^ 63"
  shows "uvarint (PutUvarint n @ rest) = Inr (n, rest)"
  using length_PutUvarint_pos [of n]
  by (simp add: uvarint_def FromUvarint_PutUvarint [OF assms])

lemma readMultihashFromBuf_Encode:
  assumes "code < 2 ^ 63" and "length h < 2 ^ 31"
  shows "readMultihashFromBuf (PutUvarint code @ PutUvarint (length h) @ h) =
           Inr (length (PutUvarint code @ PutUvarint (length h) @ h), code, h)"
proof -
  have l: "length h < 2 ^ 63"
    using assms(2) by (rule less_trans) simp
  have two: "\<not> length (PutUvarint code @ PutUvarint (length h) @ h) < 2"
    using length_PutUvarint_pos [of code] length_PutUvarint_pos [of "length h"]
    unfolding length_append by linarith
  have le: "\<not> (2 ^ 31 - 1 < length h)"
    using assms(2) by simp
  show ?thesis
    unfolding readMultihashFromBuf_def
    by (simp only: two if_False uvarint_PutUvarint [OF assms(1)]
          uvarint_PutUvarint [OF l, of h] sum.case prod.case le)
       simp
qed

lemma Decode_fields_Encode:
  assumes "code < 2 ^ 63" and "length h < 2 ^ 31"
  shows "Decode_fields (PutUvarint code @ PutUvarint (length h) @ h) = Inr (code, h)"
  by (simp add: Decode_fields_def readMultihashFromBuf_Encode [OF assms])

lemma readMultihashFromBuf_too_long:
  assumes "code < 2 ^ 63" and "2 ^ 31 \<le> length h" and "length h < 2 ^ 63"
  shows "readMultihashFromBuf (PutUvarint code @ PutUvarint (length h) @ h) =
           Inl ErrDigestTooLong"
proof -
  have two: "\<not> length (PutUvarint code @ PutUvarint (length h) @ h) < 2"
    using length_PutUvarint_pos [of code] length_PutUvarint_pos [of "length h"]
    unfolding length_append by linarith
  have le: "2 ^ 31 - 1 < length h"
    using assms(2) by simp
  show ?thesis
    unfolding readMultihashFromBuf_def
    by (simp only: two if_False uvarint_PutUvarint [OF assms(1)]
          uvarint_PutUvarint [OF assms(3), of h] sum.case prod.case le if_True)
qed

lemma PutUvarint_small: "n < 0x80 \<Longrightarrow> PutUvarint n = [of_nat n]"
  by (subst PutUvarint.simps) simp

lemma multibase_Decode_Base64url:
  "multibase_Decode (CHR ''u'' # bits_encode 6 alphabet64url b) = Inr (Base64url, b)"
proof -
  have f: "find (\<lambda>e. Encoding_char e = CHR ''u'') encodings = Some Base64url"
    using find_Encoding_char [of Base64url] by simp
  have r: "bits_decode 6 alphabet64url (bits_encode 6 alphabet64url b) = Inr b"
    by (rule bits_roundtrip) (simp_all add: alphabets_good)
  show ?thesis
    by (simp add: multibase_Decode_def f r)
qed

lemma Value_certhash:
  "Protocol c = P_CERTHASH \<Longrightarrow> Value c = CHR ''u'' # bits_encode 6 alphabet64url (RawValue c)"
  by (simp add: Value_def certHashBtS_def multibase_Encode_def)

lemma multibase_Decode_Value:
  "Protocol c = P_CERTHASH \<Longrightarrow> multibase_Decode (Value c) = Inr (Base64url, RawValue c)"
  by (simp add: Value_certhash multibase_Decode_Base64url)

lemma ForEach_collect:
  "ForEach addr (\<lambda>c strs. (True, if P c then strs @ [f c] else strs)) acc =
     acc @ map f (filter P addr)"
  by (induction addr arbitrary: acc) simp_all

lemma decode_loop_find:
  "decode_loop Codes (map Value cs) acc =
     (case find (\<lambda>c. isl (certHash Codes c)) cs of
        None \<Rightarrow> Inr (acc @ map (\<lambda>c. projr (certHash Codes c)) cs)
      | Some c \<Rightarrow> Inl (projl (certHash Codes c)))"
proof (induction cs arbitrary: acc)
  case Nil
  then show ?case by simp
next
  case (Cons c cs)
  show ?case
  proof (cases "multibase_Decode (Value c)")
    case (Inl err)
    then show ?thesis by (simp add: certHash_def)
  next
    case (Inr p)
    obtain enc ch where p: "p = (enc, ch)" by (cases p)
    show ?thesis
    proof (cases "multihash_Decode Codes ch")
      case (Inl err)
      with Inr p show ?thesis by (simp add: certHash_def)
    next
      case r: (Inr dh)
      with Inr p have "certHash Codes c = Inr dh" by (simp add: certHash_def)
      with Inr p r Cons.IH [of "acc @ [dh]"] show ?thesis
        by (simp split: option.splits)
    qed
  qed
qed

lemma extractCertHashes_find:
  "extractCertHashes Codes addr =
     (case find (\<lambda>c. isl (certHash Codes c)) (certHashComponents addr) of
        None \<Rightarrow> Inr (map (\<lambda>c. projr (certHash Codes c)) (certHashComponents addr))
      | Some c \<Rightarrow> Inl (projl (certHash Codes c)))"
  using decode_loop_find [of Codes "certHashComponents addr" "[]"]
  by (simp add: extractCertHashes_def ForEach_collect certHashComponents_def
      split: option.splits)

lemma certHash_RawValue:
  assumes "Protocol c = P_CERTHASH"
  shows "certHash Codes c =
     (case multihash_Decode Codes (RawValue c) of
        Inl err \<Rightarrow>
          Inl (fmt_Errorf ''failed to multihash-decode certificate hash'' (MultihashError err))
      | Inr dh \<Rightarrow> Inr dh)"
  by (simp add: certHash_def multibase_Decode_Value [OF assms])

lemmas multihash_Decode_defs =
  multihash_Decode_def Decode_fields_def readMultihashFromBuf_def uvarint_def FromUvarint_def

lemma PutUvarint_SHA2_256: "PutUvarint SHA2_256 = [0x12]"
  by (simp add: SHA2_256_def PutUvarint_small)

lemma SHA2_256_less: "SHA2_256 < 2 ^ 63"
  by (simp add: SHA2_256_def)

lemma ProtocolWithCode_Name_certhash: "ProtocolWithCode_Name P_CERTHASH = ''certhash''"
  by (simp add: ProtocolWithCode_Name_def protocols_def protocol_codes)

lemma NewComponent_certhash:
  assumes "multibase_Decode s = Inr (enc, data)" and "Decode_fields data = Inr x"
  shows "NewComponent ''certhash'' s = Inr [Component P_CERTHASH data]"
proof -
  have n: "ProtocolWithName ''certhash'' = P_CERTHASH"
    by (simp add: ProtocolWithName_def protocols_def)
  have z: "P_CERTHASH \<noteq> 0"
    by (simp add: P_CERTHASH_def)
  show ?thesis
    using assms z by (simp add: NewComponent_def n StringToBytes_def certHashStB_def)
qed

lemma certHashComponents_append:
  assumes "P_CERTHASH \<notin> set (Protocols a)"
  shows "certHashComponents (Encapsulate a [Component P_CERTHASH b]) = [Component P_CERTHASH b]"
proof -
  have "filter (\<lambda>c. Protocol c = P_CERTHASH) a = []"
    using assms by (force simp: Protocols_def filter_empty_conv)
  then show ?thesis
    by (simp add: certHashComponents_def Encapsulate_def)
qed

lemma extractCertHashes_single:
  assumes "P_CERTHASH \<notin> set (Protocols a)"
    and "multihash_Decode Codes b = Inr dh"
  shows "extractCertHashes Codes (Encapsulate a [Component P_CERTHASH b]) = Inr [dh]"
proof -
  have "certHash Codes (Component P_CERTHASH b) = Inr dh"
    using assms(2) by (simp add: certHash_RawValue)
  then show ?thesis
    by (simp add: extractCertHashes_find certHashComponents_append [OF assms(1)])
qed

lemma multihash_Encode_SHA2_256:
  "multihash_Encode h SHA2_256 = Inr (sha2_256_multihash h)"
  by (simp add: multihash_Encode_def PutUvarint_SHA2_256 sha2_256_multihash_def)

lemma Decode_fields_sha2_256:
  assumes "length h < 2 ^ 31"
  shows "Decode_fields (sha2_256_multihash h) = Inr (SHA2_256, h)"
  using Decode_fields_Encode [OF SHA2_256_less assms]
  by (simp add: PutUvarint_SHA2_256 sha2_256_multihash_def)

lemma multihash_Decode_sha2_256:
  assumes "length h < 2 ^ 31"
  shows "multihash_Decode Codes (sha2_256_multihash h) =
           Inr \<lparr>Code = SHA2_256, Name = Codes SHA2_256, Length = length h, Digest = h\<rparr>"
  by (simp add: multihash_Decode_def Decode_fields_sha2_256 [OF assms])

lemma NewComponent_any_encoding:
  assumes "length h < 2 ^ 31" and "multibase_Encode enc (sha2_256_multihash h) = Inr s"
  shows "NewComponent ''certhash'' s = Inr [Component P_CERTHASH (sha2_256_multihash h)]"
proof -
  have "sha2_256_multihash h \<noteq> []"
    by (simp add: sha2_256_multihash_def)
  with assms(2) have "multibase_Decode s = Inr (enc, sha2_256_multihash h)"
    by (rule multibase_roundtrip)
  then show ?thesis
    using Decode_fields_sha2_256 [OF assms(1)] by (rule NewComponent_certhash)
qed

lemma multibase_Encode_Base58BTC:
  "multibase_Encode Base58BTC mh = Inr (CHR ''z'' # bignum_encode alphabet58btc mh)"
  by (simp add: multibase_Encode_def)

lemma addrComponentForCert_eq:
  "addrComponentForCert h =
     NewComponent ''certhash'' (CHR ''z'' # bignum_encode alphabet58btc (sha2_256_multihash h))"
  by (simp add: addrComponentForCert_def multihash_Encode_SHA2_256 multibase_Encode_Base58BTC
      ProtocolWithCode_Name_certhash)

lemma addrComponentForCert_Inr:
  assumes "length h < 2 ^ 31"
  shows "addrComponentForCert h = Inr [Component P_CERTHASH (sha2_256_multihash h)]"
  unfolding addrComponentForCert_eq
  using assms multibase_Encode_Base58BTC by (rule NewComponent_any_encoding)


lemma ForEach_find:
  "ForEach m (\<lambda>c r. if Protocol c = code then (False, Inr (Value c)) else (True, r)) r0 =
     (case find (\<lambda>c. Protocol c = code) m of None \<Rightarrow> r0 | Some c \<Rightarrow> Inr (Value c))"
  by (induction m) simp_all

lemma ValueForProtocol_find:
  "ValueForProtocol m code =
     (case find (\<lambda>c. Protocol c = code) m of
        None \<Rightarrow> Inl ErrProtocolNotFound
      | Some c \<Rightarrow> Inr (Value c))"
  by (simp add: ValueForProtocol_def ForEach_find)

lemma ValueForProtocol_absent:
  assumes "code \<notin> set (Protocols m)"
  shows "ValueForProtocol m code = Inl ErrProtocolNotFound"
proof -
  have "find (\<lambda>c. Protocol c = code) m = None"
    using assms by (force simp: find_None_iff Protocols_def)
  then show ?thesis by (simp add: ValueForProtocol_find)
qed

lemma ValueForProtocol_present:
  assumes "code \<in> set (Protocols m)"
  shows "\<exists>v. ValueForProtocol m code = Inr v"
proof -
  have "find (\<lambda>c. Protocol c = code) m \<noteq> None"
    using assms by (auto simp: find_None_iff Protocols_def)
  then show ?thesis by (auto simp: ValueForProtocol_find)
qed

lemma NewComponent_ip6zone:
  assumes "zone \<noteq> []" and "CHR ''/'' \<notin> set zone"
  shows "NewComponent ''ip6zone'' zone = Inr [Component P_IP6ZONE (map char_byte zone)]"
  using assms
  by (simp add: NewComponent_def ProtocolWithName_def protocols_def StringToBytes_def
      ip6zoneStB_def protocol_codes)

lemma NewComponent_protocols:
  assumes "NewComponent name v = Inr m"
  shows "Protocols m = [ProtocolWithName name]"
  using assms
  by (auto simp: NewComponent_def Let_def Protocols_def split: if_splits option.splits sum.splits)

lemma FromIPAndZone_protocols:
  assumes "FromIPAndZone ip zone = Inr m"
  shows "set (Protocols m) \<subseteq> {P_IP4, P_IP6, P_IP6ZONE}"
proof (cases "IP_To4 ip")
  case (Some ip4)
  with assms show ?thesis by (auto simp: FromIPAndZone_def Protocols_def)
next
  case None
  show ?thesis
  proof (cases "IP_To16 ip")
    case n: None
    with None assms show ?thesis by (simp add: FromIPAndZone_def)
  next
    case (Some ip16)
    show ?thesis
    proof (cases "zone = []")
      case True
      with None Some assms show ?thesis by (auto simp: FromIPAndZone_def Protocols_def)
    next
      case False
      with None Some assms obtain z where z: "NewComponent ''ip6zone'' zone = Inr z"
        and m: "m = Encapsulate z [Component P_IP6 ip16]"
        by (auto simp: FromIPAndZone_def split: sum.splits)
      from NewComponent_protocols [OF z] have "Protocols z = [P_IP6ZONE]"
        by (simp add: ProtocolWithName_def protocols_def)
      with m show ?thesis by (simp add: Protocols_def Encapsulate_def)
    qed
  qed
qed

lemma no_udp_fails:
  assumes "\<And>addr. FromNetAddr na = Inr addr \<Longrightarrow> P_UDP \<notin> set (Protocols addr)"
  shows "\<exists>err. toWebtransportMultiaddr na = Inl err"
proof (cases "FromNetAddr na")
  case (Inl err)
  then show ?thesis by (simp add: toWebtransportMultiaddr_def)
next
  case (Inr addr)
  with assms have "ValueForProtocol addr P_UDP = Inl ErrProtocolNotFound"
    by (simp add: ValueForProtocol_absent)
  with Inr show ?thesis by (simp add: toWebtransportMultiaddr_def)
qed

lemma not_UDPAddr_fails:
  assumes "\<And>ip port zone. na \<noteq> UDPAddr ip port zone"
  shows "\<exists>err. toWebtransportMultiaddr na = Inl err"
proof (rule no_udp_fails)
  fix addr assume a: "FromNetAddr na = Inr addr"
  have ipz: "P_UDP \<notin> set (Protocols m)" if "FromIPAndZone ip zone = Inr m" for ip zone m
    using FromIPAndZone_protocols [OF that] by (auto simp: protocol_codes)
  show "P_UDP \<notin> set (Protocols addr)"
  proof (cases na)
    case (TCPAddr ip port zone)
    with a obtain ipm tcpm where i: "FromIPAndZone ip zone = Inr ipm"
      and t: "port_component P_TCP port = Inr tcpm" and m: "addr = Encapsulate ipm tcpm"
      by (auto simp: FromNetAddr_def Network_def parseTCPNetAddr_def split: sum.splits)
    from t have "Protocols tcpm = [P_TCP]"
      by (auto simp: port_component_def Protocols_def split: if_splits)
    with ipz [OF i] m show ?thesis
      by (auto simp: Encapsulate_def Protocols_def protocol_codes)
  next
    case (UDPAddr ip port zone)
    with assms show ?thesis by blast
  next
    case (IPAddr ip zone)
    with a have "FromIPAndZone ip zone = Inr addr"
      by (simp add: FromNetAddr_def Network_def parseIPNetAddr_def)
    then show ?thesis by (rule ipz)
  next
    case (IPNet ip m)
    with a have "FromIPAndZone ip [] = Inr addr"
      by (simp add: FromNetAddr_def Network_def parseIPPlusNetAddr_def)
    then show ?thesis by (rule ipz)
  next
    case (UnixAddr name net)
    with a obtain v where "NewComponent ''unix'' v = Inr addr"
      by (auto simp: FromNetAddr_def Network_def parseUnixNetAddr_def parseTCPNetAddr_def
          parseUDPNetAddr_def parseIPNetAddr_def parseIPPlusNetAddr_def split: if_splits)
    from NewComponent_protocols [OF this] show ?thesis
      by (simp add: ProtocolWithName_def protocols_def protocol_codes)
  next
    case (OtherAddr network)
    with a show ?thesis
      by (auto simp: FromNetAddr_def Network_def parseUnixNetAddr_def parseTCPNetAddr_def
          parseUDPNetAddr_def parseIPNetAddr_def parseIPPlusNetAddr_def split: if_splits)
  qed
qed

lemma ip_components_protocols:
  "Protocols (ip_components ip zone) \<in> {[P_IP4], [P_IP6], [P_IP6ZONE, P_IP6]}"
  by (simp add: ip_components_def Protocols_def split: option.splits)

lemma Decode_fields_too_long:
  assumes "2 ^ 31 \<le> length h"
  shows "\<exists>err. Decode_fields (sha2_256_multihash h) = Inl err"
proof -
  have two: "\<not> length (PutUvarint SHA2_256 @ PutUvarint (length h) @ h) < 2"
    using length_PutUvarint_pos [of SHA2_256] length_PutUvarint_pos [of "length h"]
    unfolding length_append by linarith
  have m: "sha2_256_multihash h = PutUvarint SHA2_256 @ PutUvarint (length h) @ h"
    by (simp add: sha2_256_multihash_def PutUvarint_SHA2_256)
  show ?thesis
  proof (cases "length h < 2 ^ 63")
    case True
    from readMultihashFromBuf_too_long [OF SHA2_256_less assms True] show ?thesis
      by (simp add: Decode_fields_def m)
  next
    case False
    then have "uvarint (PutUvarint (length h) @ h) = Inl (ErrVarint ErrOverflow)"
      by (intro uvarint_overflow) simp
    then have "readMultihashFromBuf (PutUvarint SHA2_256 @ PutUvarint (length h) @ h) =
        Inl (ErrVarint ErrOverflow)"
      unfolding readMultihashFromBuf_def
      by (simp only: two if_False uvarint_PutUvarint [OF SHA2_256_less] sum.case prod.case)
    then show ?thesis
      by (simp add: Decode_fields_def m)
  qed
qed

lemma addrComponentForCert_too_long:
  assumes "2 ^ 31 \<le> length h"
  shows "\<exists>err. addrComponentForCert h = Inl err"
proof -
  let ?mh = "sha2_256_multihash h"
  have ne: "?mh \<noteq> []"
    by (simp add: sha2_256_multihash_def)
  have b58: "multibase_Decode (CHR ''z'' # bignum_encode alphabet58btc ?mh) = Inr (Base58BTC, ?mh)"
    using multibase_Encode_Base58BTC ne by (rule multibase_roundtrip)
  from Decode_fields_too_long [OF assms] obtain err where "Decode_fields ?mh = Inl err"
    by blast
  with b58 show ?thesis
    by (simp add: addrComponentForCert_eq NewComponent_def ProtocolWithName_def protocols_def
        StringToBytes_def certHashStB_def protocol_codes)
qed

lemma addrComponentForCert_Inr_iff:
  "addrComponentForCert h = Inr m \<longleftrightarrow>
     length h < 2 ^ 31 \<and> m = [Component P_CERTHASH (sha2_256_multihash h)]"
proof (cases "length h < 2 ^ 31")
  case True
  then show ?thesis by (auto simp: addrComponentForCert_Inr)
next
  case False
  then have "2 ^ 31 \<le> length h" by simp
  from addrComponentForCert_too_long [OF this] False show ?thesis by auto
qed

lemma partialMatch_webtransportMatcher:
  "partialMatch webtransportMatcher pcs = Some [] \<longleftrightarrow>
     pcs = [P_IP4, P_UDP, P_QUIC, P_WEBTRANSPORT] \<or> pcs = [P_IP6, P_UDP, P_QUIC, P_WEBTRANSPORT]"
  by (auto simp: webtransportMatcher_def IP_def split: list.splits if_splits option.splits)

lemma Matches_webtransportMatcher:
  "Matches webtransportMatcher a \<longleftrightarrow>
     Protocols a = [P_IP4, P_UDP, P_QUIC, P_WEBTRANSPORT] \<or>
     Protocols a = [P_IP6, P_UDP, P_QUIC, P_WEBTRANSPORT]"
  using partialMatch_webtransportMatcher [of "Protocols a"]
  by (simp add: Matches_def webtransportMatcher_def)

lemma withoutCertHashes_append:
  assumes "\<forall>c \<in> set hs. Protocol c = P_CERTHASH" and "a \<noteq> []" and "Protocol (last a) \<noteq> P_CERTHASH"
  shows "withoutCertHashes (a @ hs) = a"
proof -
  have "dropWhile (\<lambda>c. Protocol c = P_CERTHASH) (rev hs @ rev a) =
      dropWhile (\<lambda>c. Protocol c = P_CERTHASH) (rev a)"
    using assms(1) by (intro dropWhile_append2) simp
  moreover have "dropWhile (\<lambda>c. Protocol c = P_CERTHASH) (rev a) = rev a"
    using assms(2,3) by (cases "rev a") (auto simp: last_rev [symmetric] hd_rev)
  ultimately show ?thesis by (simp add: withoutCertHashes_def)
qed

lemma Protocols_withoutCertHashes:
  "set (Protocols (withoutCertHashes a)) \<subseteq> set (Protocols a)"
proof -
  have "set (dropWhile (\<lambda>c. Protocol c = P_CERTHASH) (rev a)) \<subseteq> set (rev a)"
    by (rule set_dropWhileD [THEN subsetI])
  then show ?thesis by (auto simp: withoutCertHashes_def Protocols_def)
qed

lemma withoutCertHashes_keeps:
  assumes "c \<in> set a" and "Protocol c \<noteq> P_CERTHASH"
  shows "c \<in> set (withoutCertHashes a)"
proof -
  let ?P = "\<lambda>c. Protocol c = P_CERTHASH"
  have "set (rev a) = set (takeWhile ?P (rev a)) \<union> set (dropWhile ?P (rev a))"
    using takeWhile_dropWhile_id [of ?P "rev a"] set_append [of "takeWhile ?P (rev a)"]
    by metis
  with assms(1) have "c \<in> set (takeWhile ?P (rev a)) \<or> c \<in> set (dropWhile ?P (rev a))"
    by auto
  moreover have "c \<notin> set (takeWhile ?P (rev a))"
    using assms(2) set_takeWhileD [of c ?P "rev a"] by blast
  ultimately show ?thesis by (simp add: withoutCertHashes_def)
qed

lemma FromIPAndZone_illformed:
  assumes "IP_To4 ip = None" and "length ip \<noteq> 16 \<or> CHR ''/'' \<in> set zone"
  shows "\<exists>err. FromIPAndZone ip zone = Inl err"
proof (cases "length ip = 16")
  case True
  with assms(2) have z: "CHR ''/'' \<in> set zone" by simp
  then have "zone \<noteq> []" by auto
  with z have "NewComponent ''ip6zone'' zone = Inl ErrZoneSlash"
    by (simp add: NewComponent_def ProtocolWithName_def protocols_def StringToBytes_def
        ip6zoneStB_def protocol_codes)
  with assms(1) True \<open>zone \<noteq> []\<close> show ?thesis
    by (simp add: FromIPAndZone_def IP_To16_def)
next
  case False
  from assms(1) have "length ip \<noteq> 4"
    by (auto simp: IP_To4_def split: if_splits)
  with False assms(1) show ?thesis
    by (simp add: FromIPAndZone_def IP_To16_def)
qed

lemma FromIPAndZone_To4:
  assumes "IP_To4 ip = Some ip4"
  shows "FromIPAndZone ip zone = Inr (ip_components ip zone)"
  using assms by (simp add: FromIPAndZone_def ip_components_def)

lemma FromIPAndZone_ip6:
  assumes "IP_To4 ip = None" and "length ip = 16" and "CHR ''/'' \<notin> set zone"
  shows "FromIPAndZone ip zone = Inr (ip_components ip zone)"
  using assms
  by (simp add: FromIPAndZone_def ip_components_def IP_To16_def NewComponent_ip6zone
      Encapsulate_def)

lemma toWebtransportMultiaddr_UDPAddr_exact:
  "toWebtransportMultiaddr (UDPAddr ip port zone) =
     (if port < 65536 \<and> (IP_To4 ip \<noteq> None \<or> length ip = 16 \<and> CHR ''/'' \<notin> set zone)
      then Inr (ip_components ip zone @
                [Component P_UDP [of_nat (port div 256), of_nat port],
                 Component P_QUIC [], Component P_WEBTRANSPORT []])
      else Inl errIncorrectNetAddr)"
proof (cases "IP_To4 ip \<noteq> None \<or> length ip = 16 \<and> CHR ''/'' \<notin> set zone")
  case True
  then have f: "FromIPAndZone ip zone = Inr (ip_components ip zone)"
    using FromIPAndZone_To4 FromIPAndZone_ip6 by (cases "IP_To4 ip") auto
  show ?thesis
  proof (cases "port < 65536")
    case p: True
    let ?udp = "Component P_UDP [of_nat (port div 256), of_nat port]"
    have n: "FromNetAddr (UDPAddr ip port zone) = Inr (ip_components ip zone @ [?udp])"
      using p by (simp add: FromNetAddr_def Network_def parseUDPNetAddr_def port_component_def
          f Encapsulate_def)
    have "P_UDP \<in> set (Protocols (ip_components ip zone @ [?udp]))"
      by (simp add: Protocols_def)
    then obtain v where "ValueForProtocol (ip_components ip zone @ [?udp]) P_UDP = Inr v"
      using ValueForProtocol_present by blast
    with n True p show ?thesis
      by (simp add: toWebtransportMultiaddr_def Encapsulate_def webtransportMA_def)
  next
    case False
    then show ?thesis
      by (simp add: toWebtransportMultiaddr_def FromNetAddr_def Network_def
          parseUDPNetAddr_def port_component_def f)
  qed
next
  case False
  then have "IP_To4 ip = None" and "length ip \<noteq> 16 \<or> CHR ''/'' \<in> set zone"
    by auto
  from FromIPAndZone_illformed [OF this] obtain err where "FromIPAndZone ip zone = Inl err"
    by blast
  with False show ?thesis
    by (simp add: toWebtransportMultiaddr_def FromNetAddr_def Network_def parseUDPNetAddr_def)
qed

subsection \<open>Addresses and hashes of the examples\<close>

text \<open>
  \<^verbatim>\<open>/ip4/127.0.0.1/udp/1234/quic/webtransport\<close>, a SHA2-256 digest, two
  multihashes with short digests, a multihash that is cut off, and a table that names
  SHA2-256.
\<close>

definition names0 :: "nat \<Rightarrow> string" where
  "names0 code = (if code = SHA2_256 then ''sha2-256'' else [])"

definition base0 :: Multiaddr where
  "base0 = [Component P_IP4 [127, 0, 0, 1], Component P_UDP [0x04, 0xd2],
     Component P_QUIC [], Component P_WEBTRANSPORT []]"

definition digest0 :: "byte list" where
  "digest0 = [0xc3, 0xab, 0x8f, 0xf1, 0x37, 0x20, 0xe8, 0xad, 0x90, 0x47, 0xdd, 0x39, 0x46, 0x6b,
     0x3c, 0x89, 0x74, 0xe5, 0x92, 0xc2, 0xfa, 0x38, 0x3d, 0x4a, 0x39, 0x60, 0x71, 0x4c, 0xae,
     0xf0, 0xc4, 0xf2]"

definition hash1 :: Component where
  "hash1 = Component P_CERTHASH [0x12, 0x03, 1, 2, 3]"

definition hash2 :: Component where
  "hash2 = Component P_CERTHASH [0x12, 0x02, 9, 8]"

definition hash_short :: Component where
  "hash_short = Component P_CERTHASH [0x12, 0x03, 1, 2]"

lemma length_digest0: "length digest0 = 32"
  by (simp add: digest0_def)


lemma Protocols_base0: "Protocols base0 = [P_IP4, P_UDP, P_QUIC, P_WEBTRANSPORT]"
  by (simp add: base0_def Protocols_def)

lemma no_certhash_base0: "P_CERTHASH \<notin> set (Protocols base0)"
  by (simp add: Protocols_base0 protocol_codes)

subsection \<open>Certificate hashes\<close>

text \<open>
  Claim C5. For every address and every table of names, \<^verbatim>\<open>extractCertHashes\<close>
  returns the error of the first certificate-hash component, in the order of the
  address, whose text it cannot decode, and no hash at all; when there is no such
  component it returns the decoded multihash of every certificate-hash component, in
  the order of the address. The text of a component is the Base64url text of its
  bytes, which \<^verbatim>\<open>multibase.Decode\<close> reads back: a component fails if and only if
  its bytes are not a multihash, with the error of \<^verbatim>\<open>multihash.Decode\<close> wrapped as
  \<^verbatim>\<open>failed to multihash-decode certificate hash\<close>.
\<close>

theorem extractCertHashes_all_or_nothing:
  "extractCertHashes Codes addr =
     (case find (\<lambda>c. isl (certHash Codes c)) (certHashComponents addr) of
        None \<Rightarrow> Inr (map (\<lambda>c. projr (certHash Codes c)) (certHashComponents addr))
      | Some c \<Rightarrow> Inl (projl (certHash Codes c))) \<and>
   (\<forall>c \<in> set (certHashComponents addr).
      certHash Codes c =
        (case multihash_Decode Codes (RawValue c) of
           Inl err \<Rightarrow>
             Inl (fmt_Errorf ''failed to multihash-decode certificate hash'' (MultihashError err))
         | Inr dh \<Rightarrow> Inr dh))"
proof -
  have "certHash Codes c =
      (case multihash_Decode Codes (RawValue c) of
         Inl err \<Rightarrow>
           Inl (fmt_Errorf ''failed to multihash-decode certificate hash'' (MultihashError err))
       | Inr dh \<Rightarrow> Inr dh)"
    if "c \<in> set (certHashComponents addr)" for c
  proof -
    from that have "Protocol c = P_CERTHASH"
      by (simp add: certHashComponents_def)
    then show ?thesis by (rule certHash_RawValue)
  qed
  with extractCertHashes_find [of Codes addr] show ?thesis by blast
qed

text \<open>
  The theorem at an address with two hashes, and at an address whose second hash of
  three is cut off.
\<close>

theorem extractCertHashes_all_or_nothing_witness:
  "certHashComponents (base0 @ [hash1, hash2]) = [hash1, hash2] \<and>
   extractCertHashes names0 (base0 @ [hash1, hash2]) =
     Inr [\<lparr>Code = 0x12, Name = ''sha2-256'', Length = 3, Digest = [1, 2, 3]\<rparr>,
          \<lparr>Code = 0x12, Name = ''sha2-256'', Length = 2, Digest = [9, 8]\<rparr>] \<and>
   certHashComponents (hash1 # base0 @ [hash_short, hash2]) = [hash1, hash_short, hash2] \<and>
   extractCertHashes names0 (hash1 # base0 @ [hash_short, hash2]) =
     Inl (fmt_Errorf ''failed to multihash-decode certificate hash''
       (MultihashError ErrLengthExceedsBuffer))"
proof -
  have d1: "multihash_Decode names0 (RawValue hash1) =
      Inr \<lparr>Code = 0x12, Name = ''sha2-256'', Length = 3, Digest = [1, 2, 3]\<rparr>"
    by (simp add: hash1_def multihash_Decode_defs names0_def SHA2_256_def)
  have d2: "multihash_Decode names0 (RawValue hash2) =
      Inr \<lparr>Code = 0x12, Name = ''sha2-256'', Length = 2, Digest = [9, 8]\<rparr>"
    by (simp add: hash2_def multihash_Decode_defs names0_def SHA2_256_def)
  have d3: "multihash_Decode names0 (RawValue hash_short) = Inl ErrLengthExceedsBuffer"
    by (simp add: hash_short_def multihash_Decode_defs)
  have c1: "certHashComponents (base0 @ [hash1, hash2]) = [hash1, hash2]"
    by (simp add: certHashComponents_def base0_def hash1_def hash2_def protocol_codes)
  have c2: "certHashComponents (hash1 # base0 @ [hash_short, hash2]) = [hash1, hash_short, hash2]"
    by (simp add: certHashComponents_def base0_def hash1_def hash2_def hash_short_def
        protocol_codes)
  from extractCertHashes_all_or_nothing [of names0 "base0 @ [hash1, hash2]"]
  have "extractCertHashes names0 (base0 @ [hash1, hash2]) =
      Inr [\<lparr>Code = 0x12, Name = ''sha2-256'', Length = 3, Digest = [1, 2, 3]\<rparr>,
           \<lparr>Code = 0x12, Name = ''sha2-256'', Length = 2, Digest = [9, 8]\<rparr>]"
    by (simp add: c1 d1 d2)
  moreover from extractCertHashes_all_or_nothing [of names0 "hash1 # base0 @ [hash_short, hash2]"]
  have "extractCertHashes names0 (hash1 # base0 @ [hash_short, hash2]) =
      Inl (fmt_Errorf ''failed to multihash-decode certificate hash''
        (MultihashError ErrLengthExceedsBuffer))"
    by (simp add: c2 d1 d2 d3)
  ultimately show ?thesis
    using c1 c2 by simp
qed

text \<open>
  Claim C10. For every digest \<open>h\<close> and every address \<open>a\<close> without certificate-hash
  component: when \<^verbatim>\<open>addrComponentForCert\<close> builds a component from \<open>h\<close>, which it
  does for every digest of fewer than \<open>2 ^ 31\<close> bytes, \<^verbatim>\<open>extractCertHashes\<close> of \<open>a\<close>
  extended with the component returns exactly one decoded multihash, whose code is
  SHA2-256 and whose digest is \<open>h\<close>.
\<close>

theorem extractCertHashes_addrComponentForCert:
  assumes "P_CERTHASH \<notin> set (Protocols a)"
  shows "(length h < 2 ^ 31 \<longrightarrow> (\<exists>m. addrComponentForCert h = Inr m)) \<and>
         (\<forall>m. addrComponentForCert h = Inr m \<longrightarrow>
            extractCertHashes Codes (Encapsulate a m) =
              Inr [\<lparr>Code = SHA2_256, Name = Codes SHA2_256, Length = length h, Digest = h\<rparr>])"
proof -
  have "extractCertHashes Codes (Encapsulate a m) =
      Inr [\<lparr>Code = SHA2_256, Name = Codes SHA2_256, Length = length h, Digest = h\<rparr>]"
    if "addrComponentForCert h = Inr m" for m
  proof -
    from that have l: "length h < 2 ^ 31" and m: "m = [Component P_CERTHASH (sha2_256_multihash h)]"
      by (simp_all add: addrComponentForCert_Inr_iff)
    show ?thesis
      unfolding m using assms multihash_Decode_sha2_256 [OF l]
      by (rule extractCertHashes_single)
  qed
  then show ?thesis
    by (simp add: addrComponentForCert_Inr)
qed

theorem extractCertHashes_addrComponentForCert_witness:
  "Protocols base0 = [P_IP4, P_UDP, P_QUIC, P_WEBTRANSPORT] \<and> length digest0 = 32 \<and>
   (\<exists>m. addrComponentForCert digest0 = Inr m \<and>
      extractCertHashes names0 (Encapsulate base0 m) =
        Inr [\<lparr>Code = 0x12, Name = ''sha2-256'', Length = 32, Digest = digest0\<rparr>])"
proof -
  have "length digest0 < 2 ^ 31"
    by (simp add: length_digest0)
  with extractCertHashes_addrComponentForCert [OF no_certhash_base0, of digest0 names0]
  obtain m where "addrComponentForCert digest0 = Inr m"
    and "extractCertHashes names0 (Encapsulate base0 m) =
      Inr [\<lparr>Code = SHA2_256, Name = names0 SHA2_256, Length = length digest0,
        Digest = digest0\<rparr>]"
    by blast
  then show ?thesis
    using Protocols_base0 length_digest0 by (auto simp: names0_def SHA2_256_def)
qed



subsection \<open>The address of a bound endpoint\<close>




subsection \<open>Dialable and listenable addresses\<close>

text \<open>
  Claim C4. Every address made of an \<^verbatim>\<open>ip4\<close> or \<^verbatim>\<open>ip6\<close> component, a \<^verbatim>\<open>udp\<close>
  component, \<^verbatim>\<open>quic\<close> and \<^verbatim>\<open>webtransport\<close>, followed by zero or more
  certificate hashes, is dialable, and without the hashes it is listenable. An address
  that has no \<^verbatim>\<open>udp\<close> component, or no \<^verbatim>\<open>quic\<close> component, or that has a
  \<^verbatim>\<open>tcp\<close> component, is neither dialable nor listenable. An address with a
  certificate hash is not listenable: the listenable addresses are those whose
  protocols are exactly the four.
\<close>

theorem dialable_listenable_structural:
  "(ip \<in> {P_IP4, P_IP6} \<and> (\<forall>c \<in> set hs. Protocol c = P_CERTHASH) \<longrightarrow>
      isDialable ([Component ip b, Component P_UDP port, Component P_QUIC [],
                   Component P_WEBTRANSPORT []] @ hs) \<and>
      isListenable [Component ip b, Component P_UDP port, Component P_QUIC [],
                    Component P_WEBTRANSPORT []]) \<and>
   (P_UDP \<notin> set (Protocols a) \<or> P_QUIC \<notin> set (Protocols a) \<or> P_TCP \<in> set (Protocols a) \<longrightarrow>
      \<not> isDialable a \<and> \<not> isListenable a) \<and>
   (P_CERTHASH \<in> set (Protocols a) \<longrightarrow> \<not> isListenable a) \<and>
   (isListenable a \<longleftrightarrow>
      Protocols a = [P_IP4, P_UDP, P_QUIC, P_WEBTRANSPORT] \<or>
      Protocols a = [P_IP6, P_UDP, P_QUIC, P_WEBTRANSPORT])"
proof -
  let ?base = "[Component ip b, Component P_UDP port, Component P_QUIC [],
      Component P_WEBTRANSPORT []]"
  have one: "isDialable (?base @ hs) \<and> isListenable ?base"
    if "ip \<in> {P_IP4, P_IP6}" and "\<forall>c \<in> set hs. Protocol c = P_CERTHASH"
  proof -
    have "withoutCertHashes (?base @ hs) = ?base"
      using that(2) by (intro withoutCertHashes_append) (simp_all add: protocol_codes)
    moreover have "Matches webtransportMatcher ?base"
      using that(1) by (auto simp: Matches_webtransportMatcher Protocols_def)
    ultimately show ?thesis by (simp add: isDialable_def isListenable_def)
  qed
  have two: "\<not> isDialable a \<and> \<not> isListenable a"
    if "P_UDP \<notin> set (Protocols a) \<or> P_QUIC \<notin> set (Protocols a)"
  proof -
    from that Protocols_withoutCertHashes [of a]
    have "P_UDP \<notin> set (Protocols (withoutCertHashes a)) \<or>
        P_QUIC \<notin> set (Protocols (withoutCertHashes a))"
      by blast
    with that show ?thesis
      by (auto simp: isDialable_def isListenable_def Matches_webtransportMatcher)
  qed
  have tcp: "\<not> isDialable a \<and> \<not> isListenable a" if "P_TCP \<in> set (Protocols a)"
  proof -
    from that obtain c where c: "c \<in> set a" "Protocol c = P_TCP"
      by (auto simp: Protocols_def)
    then have "c \<in> set (withoutCertHashes a)"
      by (intro withoutCertHashes_keeps) (simp_all add: protocol_codes)
    with c(2) have "P_TCP \<in> set (Protocols (withoutCertHashes a))"
      by (force simp: Protocols_def)
    with that show ?thesis
      by (auto simp: isDialable_def isListenable_def Matches_webtransportMatcher
          protocol_codes)
  qed
  have three: "\<not> isListenable a" if "P_CERTHASH \<in> set (Protocols a)"
    using that by (auto simp: isListenable_def Matches_webtransportMatcher protocol_codes)
  have four: "isListenable a \<longleftrightarrow>
      Protocols a = [P_IP4, P_UDP, P_QUIC, P_WEBTRANSPORT] \<or>
      Protocols a = [P_IP6, P_UDP, P_QUIC, P_WEBTRANSPORT]"
    by (simp add: isListenable_def Matches_webtransportMatcher)
  from one two tcp three four show ?thesis by blast
qed

theorem dialable_listenable_structural_witness:
  "isDialable base0 \<and> isListenable base0 \<and>
   isDialable (base0 @ [hash1, hash2]) \<and> \<not> isListenable (base0 @ [hash1, hash2]) \<and>
   \<not> isDialable [Component P_IP4 [127, 0, 0, 1], Component P_UDP [0x04, 0xd2]] \<and>
   \<not> isDialable [Component P_IP4 [127, 0, 0, 1], Component P_UDP [0x04, 0xd2],
        Component P_WEBTRANSPORT []] \<and>
   \<not> isListenable [Component P_IP4 [127, 0, 0, 1], Component P_TCP [0x04, 0xd2],
        Component P_WEBTRANSPORT []]"
proof -
  have h: "\<forall>c \<in> set [hash1, hash2]. Protocol c = P_CERTHASH"
    by (simp add: hash1_def hash2_def)
  have e: "\<forall>c \<in> set ([] :: Component list). Protocol c = P_CERTHASH"
    by simp
  have i: "P_IP4 \<in> {P_IP4, P_IP6}"
    by simp
  note T = dialable_listenable_structural [THEN conjunct1, rule_format]
  note U = dialable_listenable_structural [THEN conjunct2, THEN conjunct1, rule_format]
  note V = dialable_listenable_structural [THEN conjunct2, THEN conjunct2, THEN conjunct1,
      rule_format]
  from T [of P_IP4 "[]" "[127, 0, 0, 1]" "[0x04, 0xd2]"] i e
  have a: "isDialable base0 \<and> isListenable base0"
    by (simp add: base0_def)
  from T [of P_IP4 "[hash1, hash2]" "[127, 0, 0, 1]" "[0x04, 0xd2]"] i h
  have b: "isDialable (base0 @ [hash1, hash2])"
    by (simp add: base0_def)
  have c: "\<not> isListenable (base0 @ [hash1, hash2])"
    by (rule V) (simp add: Protocols_def hash1_def)
  have d: "\<not> isDialable [Component P_IP4 [127, 0, 0, 1], Component P_UDP [0x04, 0xd2]]"
    using U [of "[Component P_IP4 [127, 0, 0, 1], Component P_UDP [0x04, 0xd2]]"]
    by (simp add: Protocols_def protocol_codes)
  have f: "\<not> isDialable [Component P_IP4 [127, 0, 0, 1], Component P_UDP [0x04, 0xd2],
        Component P_WEBTRANSPORT []]"
    using U [of "[Component P_IP4 [127, 0, 0, 1], Component P_UDP [0x04, 0xd2],
        Component P_WEBTRANSPORT []]"]
    by (simp add: Protocols_def protocol_codes)
  have g: "\<not> isListenable [Component P_IP4 [127, 0, 0, 1], Component P_TCP [0x04, 0xd2],
        Component P_WEBTRANSPORT []]"
    using U [of "[Component P_IP4 [127, 0, 0, 1], Component P_TCP [0x04, 0xd2],
        Component P_WEBTRANSPORT []]"]
    by (simp add: Protocols_def protocol_codes)
  from a b c d f g show ?thesis by (intro conjI) simp_all
qed

section \<open>Properties of the listener\<close>

lemma accept_inv_fire:
  assumes "accept_inv e l s" and "fire e l ev s = Some s'"
  shows "accept_inv e l s'"
proof (cases ev)
  case (TaskDone c)
  with assms show ?thesis
    by (auto simp: accept_inv_def handshake_task_def established_def
        split: if_splits sum.splits)
next
  case (Handler r)
  with assms show ?thesis
    by (auto simp: accept_inv_def upgrade_handler_def
        split: if_splits sum.splits handler_result.splits)
qed (use assms in \<open>auto simp: accept_inv_def accept_check_def accept_pop_def
      accept_result_def accept_done_def close_cancel_def close_server_def
      serve_return_def close_wait_def
      split: if_splits list.splits close_pc.splits\<close>)

lemma accept_inv_exec:
  "accept_inv e l s \<Longrightarrow> exec e l evs s = Some s' \<Longrightarrow> accept_inv e l s'"
proof (induction evs arbitrary: s)
  case Nil
  then show ?case by simp
next
  case (Cons ev evs)
  then show ?case
    by (auto split: option.splits dest: accept_inv_fire)
qed

lemma accept_called_inv: "accept_called s \<Longrightarrow> accept_inv e l s"
  by (simp add: accept_called_def accept_inv_def)

lemma failed_task_step:
  assumes "handshake e l c = Inl err" and "c \<in> set (tasks s)"
  shows "fire e l (TaskDone c) s =
           Some (s\<lparr>closed_sessions := c # closed_sessions s, tasks := remove1 c (tasks s)\<rparr>)"
  using assms by (simp add: handshake_task_def)

lemma errClosed_inv_fire:
  assumes "acc_pc s = Returned (Inl errClosed) \<longrightarrow> ctx_done s"
    and "fire e l ev s = Some s'"
  shows "acc_pc s' = Returned (Inl errClosed) \<longrightarrow> ctx_done s'"
proof (cases ev)
  case (TaskDone c)
  with assms show ?thesis
    by (auto simp: handshake_task_def split: if_splits sum.splits)
next
  case (Handler r)
  with assms show ?thesis
    by (auto simp: upgrade_handler_def split: if_splits sum.splits handler_result.splits)
qed (use assms in \<open>auto simp: accept_check_def accept_pop_def
      accept_result_def accept_done_def close_cancel_def close_server_def
      serve_return_def close_wait_def
      split: if_splits list.splits close_pc.splits\<close>)

lemma errClosed_inv_exec:
  "acc_pc s = Returned (Inl errClosed) \<longrightarrow> ctx_done s \<Longrightarrow> exec e l evs s = Some s' \<Longrightarrow>
   acc_pc s' = Returned (Inl errClosed) \<longrightarrow> ctx_done s'"
proof (induction evs arbitrary: s)
  case Nil
  then show ?case by simp
next
  case (Cons ev evs)
  from Cons.prems(2) obtain s1 where f: "fire e l ev s = Some s1"
    and x: "exec e l evs s1 = Some s'"
    by (auto split: option.splits)
  from errClosed_inv_fire [OF Cons.prems(1) f] x show ?case
    by (rule Cons.IH)
qed

lemma cancelled_inv_fire:
  assumes "ctx_done s \<longrightarrow> cl_pc s \<noteq> NotCalled"
    and "fire e l ev s = Some s'"
  shows "ctx_done s' \<longrightarrow> cl_pc s' \<noteq> NotCalled"
proof (cases ev)
  case (TaskDone c)
  with assms show ?thesis
    by (auto simp: handshake_task_def split: if_splits sum.splits)
next
  case (Handler r)
  with assms show ?thesis
    by (auto simp: upgrade_handler_def split: if_splits sum.splits handler_result.splits)
qed (use assms in \<open>auto simp: accept_check_def accept_pop_def
      accept_result_def accept_done_def close_cancel_def close_server_def
      serve_return_def close_wait_def
      split: if_splits list.splits close_pc.splits\<close>)

lemma cancelled_inv_exec:
  "ctx_done s \<longrightarrow> cl_pc s \<noteq> NotCalled \<Longrightarrow> exec e l evs s = Some s' \<Longrightarrow>
   ctx_done s' \<longrightarrow> cl_pc s' \<noteq> NotCalled"
proof (induction evs arbitrary: s)
  case Nil
  then show ?case by simp
next
  case (Cons ev evs)
  from Cons.prems(2) obtain s1 where f: "fire e l ev s = Some s1"
    and x: "exec e l evs s1 = Some s'"
    by (auto split: option.splits)
  from cancelled_inv_fire [OF Cons.prems(1) f] x show ?case
    by (rule Cons.IH)
qed

lemma close_inv_fire:
  assumes "close_inv e s" and "fire e l ev s = Some s'"
  shows "close_inv e s'"
proof (cases ev)
  case (TaskDone c)
  with assms show ?thesis
    by (auto simp: close_inv_def handshake_task_def split: if_splits sum.splits close_pc.splits)
next
  case (Handler r)
  with assms show ?thesis
    by (auto simp: close_inv_def upgrade_handler_def
        split: if_splits sum.splits handler_result.splits close_pc.splits)
qed (use assms in \<open>auto simp: close_inv_def accept_check_def accept_pop_def
      accept_result_def accept_done_def close_cancel_def close_server_def
      serve_return_def close_wait_def
      split: if_splits list.splits close_pc.splits\<close>)

lemma close_inv_exec:
  "close_inv e s \<Longrightarrow> exec e l evs s = Some s' \<Longrightarrow> close_inv e s'"
proof (induction evs arbitrary: s)
  case Nil
  then show ?case by simp
next
  case (Cons ev evs)
  then show ?case
    by (auto split: option.splits dest: close_inv_fire)
qed

lemma ctx_done_fire:
  assumes "ctx_done s" and "fire e l ev s = Some s'"
  shows "ctx_done s'"
proof (cases ev)
  case (TaskDone c)
  with assms show ?thesis
    by (auto simp: handshake_task_def split: if_splits sum.splits)
next
  case (Handler r)
  with assms show ?thesis
    by (auto simp: upgrade_handler_def split: if_splits sum.splits handler_result.splits)
qed (use assms in \<open>auto simp: accept_check_def accept_pop_def
      accept_result_def accept_done_def close_cancel_def close_server_def
      serve_return_def close_wait_def
      split: if_splits list.splits close_pc.splits\<close>)

lemma ctx_done_exec:
  "ctx_done s \<Longrightarrow> exec e l evs s = Some s' \<Longrightarrow> ctx_done s'"
proof (induction evs arbitrary: s)
  case Nil
  then show ?case by simp
next
  case (Cons ev evs)
  then show ?case
    by (auto split: option.splits dest: ctx_done_fire)
qed

lemma Close_returns:
  assumes "cl_pc s = NotCalled"
  shows "\<exists>s'. exec e l (close_schedule s) s = Some s' \<and>
           cl_pc s' = CloseReturned (server_Close e)"
  using assms
  by (simp add: close_schedule_def close_cancel_def close_server_def serve_return_def
      close_wait_def)

lemma accept_steps_check:
  assumes "ctx_done s" and "acc_pc s = AtCheck"
  shows "accept_steps s = [s\<lparr>acc_pc := Returned (Inl errClosed)\<rparr>]"
  using assms
  by (simp add: accept_steps_def accept_check_def accept_pop_def
      accept_result_def accept_done_def)

lemma accept_steps_select:
  assumes "ctx_done s" and "acc_pc s = AtSelect"
  shows "s\<lparr>acc_pc := Returned (Inl errClosed)\<rparr> \<in> set (accept_steps s) \<and>
         (\<forall>s' \<in> set (accept_steps s).
            acc_pc s' = Returned (Inl errClosed) \<or> acc_pc s' = AtCheck \<or>
            (\<exists>conn r. results s = conn # r \<and> acc_pc s' = Returned (Inr conn)))"
  using assms
  by (auto simp: accept_steps_def accept_check_def accept_pop_def
      accept_result_def accept_done_def split: list.splits)

subsection \<open>A run with a failing and a succeeding session\<close>

text \<open>
  Two sessions are upgraded. The first stream of session 1 never arrives before the
  deadline of its handshake; session 2 completes its handshake.
\<close>

definition env0 :: env where
  "env0 = \<lparr>
     Upgrade = (\<lambda>r. case r of Request n \<Rightarrow> Inr (Conn n)),
     AcceptStream = (\<lambda>c. case c of Conn n \<Rightarrow>
        if n = 1 then Inl DeadlineExceeded else Inr (Stream.Stream n)),
     SecureInbound = (\<lambda>st. Inr \<lparr>LocalPrivateKey = [1], RemotePublicKey = [2]\<rparr>),
     newConn = (\<lambda>t c k p. Inr \<lparr>conn_transport = t, conn_wconn = c,
        conn_privKey = k, conn_remotePubKey = p\<rparr>),
     server_Close = None\<rparr>"

definition l0 :: listener where
  "l0 = \<lparr>transport = Transport 0, multiaddr = base0\<rparr>"

definition init0 :: state where
  "init0 = \<lparr>ctx_done = False, l_queue = [], server_closed = False, serverClosed = False,
     closed_sessions = [], acc_pc = AtCheck, results = [], tasks = [], cl_pc = NotCalled\<rparr>"

definition conn2 :: CapableConn where
  "conn2 = \<lparr>conn_transport = Transport 0, conn_wconn = Conn 2,
     conn_privKey = [1], conn_remotePubKey = [2]\<rparr>"

definition sched0 :: "event list" where
  "sched0 = [Handler (Request 1), Handler (Request 2), AcceptCheck, AcceptPop,
     AcceptCheck, AcceptPop, TaskDone (Conn 1), TaskDone (Conn 2), AcceptCheck,
     AcceptResult]"

definition final0 :: state where
  "final0 = \<lparr>ctx_done = False, l_queue = [], server_closed = False, serverClosed = False,
     closed_sessions = [Conn 1], acc_pc = Returned (Inr conn2), results = [], tasks = [],
     cl_pc = NotCalled\<rparr>"

lemmas listener_step_defs =
  accept_check_def accept_pop_def accept_result_def accept_done_def handshake_task_def
  upgrade_handler_def close_cancel_def close_server_def serve_return_def close_wait_def
  handshake_def queueLen_def

lemma exec_sched0: "exec env0 l0 sched0 init0 = Some final0"
  by (simp add: sched0_def init0_def final0_def env0_def l0_def conn2_def
      listener_step_defs)

definition pending0 :: state where
  "pending0 = \<lparr>ctx_done = False, l_queue = [], server_closed = False, serverClosed = False,
     closed_sessions = [], acc_pc = AtCheck, results = [], tasks = [Conn 1, Conn 2],
     cl_pc = NotCalled\<rparr>"

text \<open>A run of \<^verbatim>\<open>Close\<close> alone.\<close>

definition sched_close :: "event list" where
  "sched_close = [CloseCancel, CloseServer, ServeReturn, CloseWait]"

definition final_close :: state where
  "final_close = \<lparr>ctx_done = True, l_queue = [], server_closed = True, serverClosed = True,
     closed_sessions = [], acc_pc = AtCheck, results = [], tasks = [],
     cl_pc = CloseReturned None\<rparr>"

lemma exec_sched_close: "exec env0 l0 sched_close init0 = Some final_close"
  by (simp add: sched_close_def init0_def final_close_def env0_def listener_step_defs)

text \<open>
  Claim C3. In every run of a call of \<^verbatim>\<open>Accept\<close>, whatever the schedule and whatever
  the handshakes do: when the call has returned, it has returned a connection that
  \<^verbatim>\<open>handshake\<close> returned for some session, or it has returned \<^verbatim>\<open>errClosed\<close> and then
  the context of the listener is cancelled; the context is cancelled by \<^verbatim>\<open>Close\<close>
  only, so that no step of a handshake makes the call return an error. The goroutine
  of a session whose handshake fails (an expired deadline is such a failure) can always
  take its step, and all that the step does is to close the session and end the
  goroutine: the context, \<^verbatim>\<open>l.queue\<close>, the channel the call reads, the position of the
  call and what it returns are as before.
\<close>

theorem Accept_hides_failed_handshakes:
  assumes "accept_called s0" and "exec e l evs s0 = Some s"
  shows "(\<forall>r. acc_pc s = Returned r \<longrightarrow>
            (r = Inl errClosed \<and> ctx_done s) \<or>
            (\<exists>conn. r = Inr conn \<and> established e l conn)) \<and>
         (\<not> ctx_done s0 \<and> ctx_done s \<longrightarrow> cl_pc s \<noteq> NotCalled) \<and>
         (\<forall>c err. handshake e l c = Inl err \<and> c \<in> set (tasks s) \<longrightarrow>
            fire e l (TaskDone c) s =
              Some (s\<lparr>closed_sessions := c # closed_sessions s,
                      tasks := remove1 c (tasks s)\<rparr>))"
proof -
  have "accept_inv e l s"
    using assms accept_called_inv accept_inv_exec by blast
  then have ret: "\<forall>r. acc_pc s = Returned r \<longrightarrow>
      r = Inl errClosed \<or> (\<exists>conn. r = Inr conn \<and> established e l conn)"
    by (simp add: accept_inv_def)
  have "acc_pc s0 = Returned (Inl errClosed) \<longrightarrow> ctx_done s0"
    using assms(1) by (simp add: accept_called_def)
  then have closed: "acc_pc s = Returned (Inl errClosed) \<longrightarrow> ctx_done s"
    using assms(2) by (rule errClosed_inv_exec)
  have cancelled: "cl_pc s \<noteq> NotCalled" if "\<not> ctx_done s0" and "ctx_done s"
  proof -
    from that(1) have "ctx_done s0 \<longrightarrow> cl_pc s0 \<noteq> NotCalled" by simp
    then have "ctx_done s \<longrightarrow> cl_pc s \<noteq> NotCalled"
      using assms(2) by (rule cancelled_inv_exec)
    with that(2) show ?thesis by simp
  qed
  from ret closed have a: "\<forall>r. acc_pc s = Returned r \<longrightarrow>
      (r = Inl errClosed \<and> ctx_done s) \<or> (\<exists>conn. r = Inr conn \<and> established e l conn)"
    by blast
  from cancelled have b: "\<not> ctx_done s0 \<and> ctx_done s \<longrightarrow> cl_pc s \<noteq> NotCalled"
    by blast
  have c: "\<forall>c err. handshake e l c = Inl err \<and> c \<in> set (tasks s) \<longrightarrow>
      fire e l (TaskDone c) s =
        Some (s\<lparr>closed_sessions := c # closed_sessions s, tasks := remove1 c (tasks s)\<rparr>)"
    using failed_task_step by blast
  from a b c show ?thesis by (intro conjI)
qed

text \<open>
  The theorem at three runs from \<open>init0\<close>. In \<open>sched0\<close> the handshake of session 1
  fails and the call returns the connection of session 2, with the context not
  cancelled. After the first six events of \<open>sched0\<close> the goroutine of session 1 is
  pending, and its step only closes the session. After \<^verbatim>\<open>Close\<close> a call returns
  \<^verbatim>\<open>errClosed\<close>.
\<close>

theorem Accept_hides_failed_handshakes_witness:
  "accept_called init0 \<and> exec env0 l0 sched0 init0 = Some final0 \<and>
   acc_pc final0 = Returned (Inr conn2) \<and> established env0 l0 conn2 \<and>
   \<not> ctx_done final0 \<and> cl_pc final0 = NotCalled \<and>
   handshake env0 l0 (Conn 1) = Inl DeadlineExceeded \<and>
   closed_sessions final0 = [Conn 1] \<and>
   exec env0 l0 (take 6 sched0) init0 = Some pending0 \<and>
   fire env0 l0 (TaskDone (Conn 1)) pending0 =
     Some (pending0\<lparr>closed_sessions := [Conn 1], tasks := [Conn 2]\<rparr>) \<and>
   exec env0 l0 (sched_close @ [AcceptCheck]) init0 =
     Some (final_close\<lparr>acc_pc := Returned (Inl errClosed)\<rparr>) \<and>
   ctx_done final_close \<and> cl_pc final_close \<noteq> NotCalled"
proof -
  have c: "accept_called init0"
    by (simp add: accept_called_def init0_def)
  have r: "acc_pc final0 = Returned (Inr conn2)"
    by (simp add: final0_def)
  have h: "handshake env0 l0 (Conn 1) = Inl DeadlineExceeded"
    by (simp add: handshake_def env0_def)
  have p: "exec env0 l0 (take 6 sched0) init0 = Some pending0"
    by (simp add: sched0_def init0_def pending0_def env0_def l0_def listener_step_defs)
  have t: "Conn 1 \<in> set (tasks pending0)"
    and u: "closed_sessions pending0 = []" "remove1 (Conn 1) (tasks pending0) = [Conn 2]"
    by (simp_all add: pending0_def)
  have x: "exec env0 l0 (sched_close @ [AcceptCheck]) init0 =
      Some (final_close\<lparr>acc_pc := Returned (Inl errClosed)\<rparr>)"
    by (simp add: sched_close_def init0_def final_close_def env0_def listener_step_defs)
  have n: "\<not> ctx_done init0"
    by (simp add: init0_def)
  from Accept_hides_failed_handshakes [OF c exec_sched0] r
  have "established env0 l0 conn2" by auto
  moreover from Accept_hides_failed_handshakes [OF c p] h t u
  have "fire env0 l0 (TaskDone (Conn 1)) pending0 =
      Some (pending0\<lparr>closed_sessions := [Conn 1], tasks := [Conn 2]\<rparr>)"
    by auto
  moreover from Accept_hides_failed_handshakes [OF c x] n
  have "ctx_done final_close \<and> cl_pc final_close \<noteq> NotCalled"
    by auto
  ultimately show ?thesis
    using c r h p x exec_sched0 by (simp add: final0_def)
qed

subsection \<open>\<^verbatim>\<open>Close\<close>, and \<^verbatim>\<open>Accept\<close> after it\<close>

text \<open>
  A call of \<^verbatim>\<open>Accept\<close> has started the handshake of session 2 and waits at its blocking
  \<^verbatim>\<open>select\<close>; the handshake completes and its connection is in the channel of the
  call; \<^verbatim>\<open>Close\<close> then runs to its end; the call then takes the connection.
\<close>

definition sched1 :: "event list" where
  "sched1 = [Handler (Request 2), AcceptCheck, AcceptPop, AcceptCheck, TaskDone (Conn 2),
     CloseCancel, CloseServer, ServeReturn, CloseWait, AcceptResult]"

definition final1 :: state where
  "final1 = \<lparr>ctx_done = True, l_queue = [], server_closed = True, serverClosed = True,
     closed_sessions = [], acc_pc = Returned (Inr conn2), results = [], tasks = [],
     cl_pc = CloseReturned None\<rparr>"

text \<open>
  Claim C8, as stated, fails for a call of \<^verbatim>\<open>Accept\<close> that is in progress: in this run
  \<^verbatim>\<open>Close\<close> has returned, and the call returns a connection and not \<^verbatim>\<open>errClosed\<close>.
\<close>

theorem Accept_in_progress_returns_conn_after_Close:
  "exec env0 l0 sched1 init0 = Some final1 \<and>
   exec env0 l0 (take 9 sched1) init0 \<noteq> None \<and>
   map_option cl_pc (exec env0 l0 (take 9 sched1) init0) = Some (CloseReturned None) \<and>
   map_option acc_pc (exec env0 l0 (take 9 sched1) init0) = Some AtSelect \<and>
   acc_pc final1 = Returned (Inr conn2) \<and>
   acc_pc final1 \<noteq> Returned (Inl errClosed)"
  by (simp add: sched1_def init0_def final1_def env0_def l0_def conn2_def
      listener_step_defs)

text \<open>
  Claim C8, amended. \<^verbatim>\<open>Close\<close>, called once, runs to its end; when it has returned it
  has cancelled the context, closed the server, seen the serving goroutine finish, and
  it returns the error of closing the server. The context stays cancelled. Once it is
  cancelled, a call of \<^verbatim>\<open>Accept\<close> that starts, or starts a round of its loop, has one
  step only, which returns \<^verbatim>\<open>errClosed\<close>; a call waiting at its blocking \<^verbatim>\<open>select\<close>
  can always return \<^verbatim>\<open>errClosed\<close>, and its other steps return a connection that was
  already in its channel, or take a queued session and start a round.
\<close>

theorem Close_then_Accept_fails:
  assumes "cl_pc s0 = NotCalled" and "exec e l evs s0 = Some s"
  shows "(cl_pc s = NotCalled \<longrightarrow>
            (\<exists>s'. exec e l (close_schedule s) s = Some s' \<and>
               cl_pc s' = CloseReturned (server_Close e))) \<and>
         (cl_pc s \<noteq> NotCalled \<longrightarrow> ctx_done s) \<and>
         (\<forall>r. cl_pc s = CloseReturned r \<longrightarrow>
            server_closed s \<and> serverClosed s \<and> r = server_Close e) \<and>
         (\<forall>evs' s'. ctx_done s \<and> exec e l evs' s = Some s' \<longrightarrow> ctx_done s') \<and>
         (ctx_done s \<and> acc_pc s = AtCheck \<longrightarrow>
            accept_steps s = [s\<lparr>acc_pc := Returned (Inl errClosed)\<rparr>]) \<and>
         (ctx_done s \<and> acc_pc s = AtSelect \<longrightarrow>
            s\<lparr>acc_pc := Returned (Inl errClosed)\<rparr> \<in> set (accept_steps s) \<and>
            (\<forall>s' \<in> set (accept_steps s).
               acc_pc s' = Returned (Inl errClosed) \<or> acc_pc s' = AtCheck \<or>
               (\<exists>conn r. results s = conn # r \<and> acc_pc s' = Returned (Inr conn))))"
proof -
  have "close_inv e s0"
    using assms(1) by (simp add: close_inv_def)
  then have inv: "close_inv e s"
    using assms(2) close_inv_exec by blast
  have a: "cl_pc s \<noteq> NotCalled \<longrightarrow> ctx_done s"
    using inv by (auto simp: close_inv_def split: close_pc.splits)
  have b: "\<forall>r. cl_pc s = CloseReturned r \<longrightarrow>
      server_closed s \<and> serverClosed s \<and> r = server_Close e"
    using inv by (auto simp: close_inv_def)
  have c: "\<forall>evs' s'. ctx_done s \<and> exec e l evs' s = Some s' \<longrightarrow> ctx_done s'"
    using ctx_done_exec by blast
  show ?thesis
    using a b c Close_returns accept_steps_check accept_steps_select by blast
qed

theorem Close_then_Accept_fails_witness:
  "cl_pc init0 = NotCalled \<and> exec env0 l0 sched_close init0 = Some final_close \<and>
   ctx_done final_close \<and> server_closed final_close \<and> serverClosed final_close \<and>
   cl_pc final_close = CloseReturned (server_Close env0) \<and>
   accept_steps final_close = [final_close\<lparr>acc_pc := Returned (Inl errClosed)\<rparr>]"
proof -
  have n: "cl_pc init0 = NotCalled"
    by (simp add: init0_def)
  have r: "cl_pc final_close = CloseReturned None" and k: "acc_pc final_close = AtCheck"
    by (simp_all add: final_close_def)
  from Close_then_Accept_fails [OF n exec_sched_close] r k
  have "ctx_done final_close \<and> server_closed final_close \<and> serverClosed final_close \<and>
      None = server_Close env0 \<and>
      accept_steps final_close = [final_close\<lparr>acc_pc := Returned (Inl errClosed)\<rparr>]"
    by auto
  then show ?thesis
    using n r exec_sched_close by simp
qed

subsection \<open>A full queue\<close>

definition full_queue :: state where
  "full_queue = \<lparr>ctx_done = False,
     l_queue = [Conn 1, Conn 2, Conn 3, Conn 4, Conn 5, Conn 6, Conn 7, Conn 8, Conn 9,
       Conn 10, Conn 11, Conn 12, Conn 13, Conn 14, Conn 15, Conn 16],
     server_closed = False, serverClosed = False,
     closed_sessions = [], acc_pc = AtCheck, results = [], tasks = [], cl_pc = NotCalled\<rparr>"

text \<open>
  Claim C2 on the code. With 16 sessions in \<^verbatim>\<open>l.queue\<close> the handler of a 17th upgraded
  session blocks on its send: the session is neither rejected nor closed. And once
  \<^verbatim>\<open>Accept\<close> has taken a session from the channel, whose handshake is then pending, the
  17th is queued: 17 sessions are upgraded and not yet authenticated.
\<close>

theorem handler_blocks_on_full_queue:
  "length (l_queue full_queue) = queueLen \<and>
   upgrade_handler env0 (Request 17) full_queue = BlockedOnSend (Conn 17) \<and>
   fire env0 l0 (Handler (Request 17)) full_queue = None \<and>
   map_option (\<lambda>s. (length (l_queue s), tasks s, closed_sessions s))
     (exec env0 l0 [AcceptCheck, AcceptPop, Handler (Request 17)] full_queue) =
     Some (16, [Conn 1], [])"
  by (simp add: full_queue_def env0_def l0_def listener_step_defs)

subsection \<open>The advertised address\<close>

lemma toWebtransportMultiaddr_no_certhash:
  assumes "toWebtransportMultiaddr na = Inr a"
  shows "P_CERTHASH \<notin> set (Protocols a)"
proof -
  from assms not_UDPAddr_fails [of na] obtain ip port zone where na: "na = UDPAddr ip port zone"
    by force
  from assms toWebtransportMultiaddr_UDPAddr_exact [of ip port zone]
  have a: "a = ip_components ip zone @
      [Component P_UDP [of_nat (port div 256), of_nat port],
       Component P_QUIC [], Component P_WEBTRANSPORT []]"
    unfolding na by (simp split: if_splits)
  from ip_components_protocols [of ip zone] show ?thesis
    unfolding a by (auto simp: Protocols_def protocol_codes)
qed

lemma AddrComponent_hashes:
  assumes "\<forall>h \<in> set (advertisedHashes m). length h < 2 ^ 31"
  shows "AddrComponent m =
           map (\<lambda>h. Component P_CERTHASH (sha2_256_multihash h)) (advertisedHashes m)"
proof -
  have "map (\<lambda>h. case addrComponentForCert h of Inl err \<Rightarrow> [] | Inr c \<Rightarrow> c)
        (advertisedHashes m) =
      map (\<lambda>h. [Component P_CERTHASH (sha2_256_multihash h)]) (advertisedHashes m)"
    using assms by (intro map_cong) (simp_all add: addrComponentForCert_Inr)
  then have "AddrComponent m =
      concat (map (\<lambda>h. [Component P_CERTHASH (sha2_256_multihash h)]) (advertisedHashes m))"
    unfolding AddrComponent_def by (rule arg_cong)
  then show ?thesis
    by simp
qed

lemma extractCertHashes_hashes:
  assumes "P_CERTHASH \<notin> set (Protocols a)" and "\<forall>h \<in> set hs. length h < 2 ^ 31"
  shows "extractCertHashes Codes
           (Encapsulate a (map (\<lambda>h. Component P_CERTHASH (sha2_256_multihash h)) hs)) =
         Inr (map (\<lambda>h. \<lparr>Code = SHA2_256, Name = Codes SHA2_256, Length = length h,
           Digest = h\<rparr>) hs)"
proof -
  let ?c = "\<lambda>h. Component P_CERTHASH (sha2_256_multihash h)"
  let ?d = "\<lambda>h. \<lparr>Code = SHA2_256, Name = Codes SHA2_256, Length = length h, Digest = h\<rparr>"
  have "filter (\<lambda>c. Protocol c = P_CERTHASH) a = []"
    using assms(1) by (force simp: Protocols_def filter_empty_conv)
  then have cs: "certHashComponents (Encapsulate a (map ?c hs)) = map ?c hs"
    by (simp add: certHashComponents_def Encapsulate_def filter_map comp_def)
  have one: "certHash Codes (?c h) = Inr (?d h)" if "h \<in> set hs" for h
    using that assms(2) by (simp add: certHash_RawValue multihash_Decode_sha2_256)
  then have none: "find (\<lambda>c. isl (certHash Codes c)) (map ?c hs) = None"
    by (auto simp: find_None_iff)
  have "map (\<lambda>c. projr (certHash Codes c)) (map ?c hs) = map ?d hs"
    using one by (simp add: comp_def)
  with none show ?thesis
    by (simp add: extractCertHashes_find cs)
qed

definition digest1 :: "byte list" where
  "digest1 = [0x2c, 0x26, 0xb4, 0x6b, 0x68, 0xff, 0xc6, 0x8f, 0xf9, 0x9b, 0x45, 0x3c, 0x1d, 0x30,
     0x41, 0x34, 0x13, 0x42, 0x2d, 0x70, 0x64, 0x83, 0xbf, 0xa0, 0xf9, 0x8a, 0x5e, 0x88, 0x62,
     0x66, 0xe7, 0xae]"

text \<open>
  Claim C7. The listener is bound to the address that \<^verbatim>\<open>toWebtransportMultiaddr\<close>
  made of its endpoint. With a static TLS configuration \<^verbatim>\<open>Multiaddr\<close> is that
  address, and it has no certificate hash. Otherwise, whatever the certificate manager
  holds at the call (SHA2-256 digests have 32 bytes; fewer than \<open>2 ^ 31\<close> is asked
  here), \<^verbatim>\<open>Multiaddr\<close> is that address followed by the \<^verbatim>\<open>certhash\<close> components of
  the hashes the manager advertises at that moment, so that \<^verbatim>\<open>extractCertHashes\<close>
  returns exactly these hashes, in their order; this holds for the manager after a
  rotation as for any other.
\<close>

theorem listener_Multiaddr_current_hashes:
  assumes "toWebtransportMultiaddr na = Inr (multiaddr l)"
  shows "listener_Multiaddr l StaticTLS = multiaddr l \<and>
         extractCertHashes Codes (listener_Multiaddr l StaticTLS) = Inr [] \<and>
         ((\<forall>h \<in> set (advertisedHashes m). length h < 2 ^ 31) \<longrightarrow>
            listener_Multiaddr l m =
              multiaddr l @
              map (\<lambda>h. Component P_CERTHASH (sha2_256_multihash h)) (advertisedHashes m) \<and>
            extractCertHashes Codes (listener_Multiaddr l m) =
              Inr (map (\<lambda>h. \<lparr>Code = SHA2_256, Name = Codes SHA2_256, Length = length h,
                Digest = h\<rparr>) (advertisedHashes m)))"
proof -
  have n: "P_CERTHASH \<notin> set (Protocols (multiaddr l))"
    using assms by (rule toWebtransportMultiaddr_no_certhash)
  have s: "listener_Multiaddr l StaticTLS = multiaddr l"
    by (simp add: listener_Multiaddr_def AddrComponent_def Encapsulate_def)
  have "extractCertHashes Codes (Encapsulate (multiaddr l) (map (\<lambda>h. Component P_CERTHASH
      (sha2_256_multihash h)) [])) = Inr []"
    using extractCertHashes_hashes [OF n, of "[]" Codes] by simp
  then have e: "extractCertHashes Codes (listener_Multiaddr l StaticTLS) = Inr []"
    by (simp add: s Encapsulate_def)
  have r: "listener_Multiaddr l m =
        multiaddr l @
        map (\<lambda>h. Component P_CERTHASH (sha2_256_multihash h)) (advertisedHashes m) \<and>
      extractCertHashes Codes (listener_Multiaddr l m) =
        Inr (map (\<lambda>h. \<lparr>Code = SHA2_256, Name = Codes SHA2_256, Length = length h,
          Digest = h\<rparr>) (advertisedHashes m))"
    if h: "\<forall>h \<in> set (advertisedHashes m). length h < 2 ^ 31"
    using extractCertHashes_hashes [OF n h, of Codes]
    by (simp add: listener_Multiaddr_def AddrComponent_hashes [OF h] Encapsulate_def)
  from s e r show ?thesis by blast
qed

text \<open>
  The theorem at the listener \<open>l0\<close>, bound to \<^verbatim>\<open>127.0.0.1:1234\<close>: with a static TLS
  configuration, with one certificate, and after two rotations.
\<close>

theorem listener_Multiaddr_current_hashes_witness:
  "toWebtransportMultiaddr (UDPAddr [127, 0, 0, 1] 1234 []) = Inr (multiaddr l0) \<and>
   listener_Multiaddr l0 StaticTLS = base0 \<and>
   extractCertHashes names0 (listener_Multiaddr l0 StaticTLS) = Inr [] \<and>
   listener_Multiaddr l0 (Rotating digest0 None) =
     base0 @ [Component P_CERTHASH (sha2_256_multihash digest0)] \<and>
   extractCertHashes names0 (listener_Multiaddr l0 (Rotating digest0 None)) =
     Inr [\<lparr>Code = 0x12, Name = ''sha2-256'', Length = 32, Digest = digest0\<rparr>] \<and>
   rotateCerts digest0 (rotateCerts digest1 (Rotating digest0 None)) =
     Rotating digest1 (Some digest0) \<and>
   extractCertHashes names0
     (listener_Multiaddr l0 (rotateCerts digest0 (rotateCerts digest1 (Rotating digest0 None)))) =
     Inr [\<lparr>Code = 0x12, Name = ''sha2-256'', Length = 32, Digest = digest1\<rparr>,
          \<lparr>Code = 0x12, Name = ''sha2-256'', Length = 32, Digest = digest0\<rparr>]"
proof -
  have b: "toWebtransportMultiaddr (UDPAddr [127, 0, 0, 1] 1234 []) = Inr (multiaddr l0)"
    using toWebtransportMultiaddr_UDPAddr_exact [of "[127, 0, 0, 1]" 1234 "[]"]
    by (simp add: IP_To4_def ip_components_def base0_def l0_def)
  have m: "multiaddr l0 = base0"
    by (simp add: l0_def)
  have l1: "length digest1 = 32"
    by (simp add: digest1_def)
  have h1: "\<forall>h \<in> set (advertisedHashes (Rotating digest0 None)). length h < 2 ^ 31"
    by (simp add: length_digest0)
  have h2: "\<forall>h \<in> set (advertisedHashes (Rotating digest1 (Some digest0))). length h < 2 ^ 31"
    by (simp add: length_digest0 l1)
  have r: "rotateCerts digest0 (rotateCerts digest1 (Rotating digest0 None)) =
      Rotating digest1 (Some digest0)"
    by simp
  note T = listener_Multiaddr_current_hashes [OF b, of names0]
  from T [of StaticTLS, unfolded m] have s1: "listener_Multiaddr l0 StaticTLS = base0"
    and s2: "extractCertHashes names0 (listener_Multiaddr l0 StaticTLS) = Inr []"
    by blast+
  from T [of "Rotating digest0 None", unfolded m] h1
  have a1: "listener_Multiaddr l0 (Rotating digest0 None) =
      base0 @ map (\<lambda>h. Component P_CERTHASH (sha2_256_multihash h))
        (advertisedHashes (Rotating digest0 None))"
    and x1: "extractCertHashes names0 (listener_Multiaddr l0 (Rotating digest0 None)) =
      Inr (map (\<lambda>h. \<lparr>Code = SHA2_256, Name = names0 SHA2_256, Length = length h,
        Digest = h\<rparr>) (advertisedHashes (Rotating digest0 None)))"
    by blast+
  from a1 have one: "listener_Multiaddr l0 (Rotating digest0 None) =
      base0 @ [Component P_CERTHASH (sha2_256_multihash digest0)]"
    by simp
  from x1 have one': "extractCertHashes names0 (listener_Multiaddr l0 (Rotating digest0 None)) =
      Inr [\<lparr>Code = 0x12, Name = ''sha2-256'', Length = 32, Digest = digest0\<rparr>]"
    by (simp add: names0_def SHA2_256_def length_digest0)
  from T [of "Rotating digest1 (Some digest0)", unfolded m] h2
  have "extractCertHashes names0 (listener_Multiaddr l0 (Rotating digest1 (Some digest0))) =
      Inr (map (\<lambda>h. \<lparr>Code = SHA2_256, Name = names0 SHA2_256, Length = length h,
        Digest = h\<rparr>) (advertisedHashes (Rotating digest1 (Some digest0))))"
    by blast
  then have two: "extractCertHashes names0
      (listener_Multiaddr l0 (Rotating digest1 (Some digest0))) =
      Inr [\<lparr>Code = 0x12, Name = ''sha2-256'', Length = 32, Digest = digest1\<rparr>,
           \<lparr>Code = 0x12, Name = ''sha2-256'', Length = 32, Digest = digest0\<rparr>]"
    by (simp add: names0_def SHA2_256_def length_digest0 l1)
  from two have two': "extractCertHashes names0
      (listener_Multiaddr l0 (rotateCerts digest0 (rotateCerts digest1 (Rotating digest0 None)))) =
      Inr [\<lparr>Code = 0x12, Name = ''sha2-256'', Length = 32, Digest = digest1\<rparr>,
           \<lparr>Code = 0x12, Name = ''sha2-256'', Length = 32, Digest = digest0\<rparr>]"
    by (simp only: r)
  from b s1 s2 one one' r two' show ?thesis
    by (intro conjI)
qed

subsection \<open>A session that the policies deny\<close>

text \<open>The resource manager denies every session and the gater lets no connection pass.\<close>

definition deny_all :: policies where
  "deny_all = \<lparr>OpenConnection = (\<lambda>c. Some (Error ''denied'')),
     InterceptSecured = (\<lambda>conn. False)\<rparr>"

text \<open>
  Claim C1 on the code. The handler of the upgrade endpoint, the goroutine of
  \<^verbatim>\<open>Accept\<close> and \<^verbatim>\<open>handshake\<close> ask neither the resource manager nor the gater:
  \<^verbatim>\<open>handshake\<close> returns what \<^verbatim>\<open>newConn\<close> makes of the session once
  \<^verbatim>\<open>SecureInbound\<close> has succeeded. In the run \<open>sched0\<close>, where \<^verbatim>\<open>newConn\<close> builds
  the connection from its arguments, session 2 is upgraded and queued, its handshake
  succeeds, and \<^verbatim>\<open>Accept\<close> returns its connection without the session being closed,
  although the policies deny it.
\<close>

theorem Accept_returns_denied_session:
  "\<not> admitted deny_all (Conn 2) conn2 \<and>
   upgrade_handler env0 (Request 2) init0 = Enqueued (init0\<lparr>l_queue := [Conn 2]\<rparr>) \<and>
   handshake env0 l0 (Conn 2) = Inr conn2 \<and>
   exec env0 l0 sched0 init0 = Some final0 \<and>
   acc_pc final0 = Returned (Inr conn2) \<and>
   closed_sessions final0 = [Conn 1]"
  by (simp add: admitted_def deny_all_def sched0_def init0_def final0_def env0_def l0_def
      conn2_def listener_step_defs)

end
